theory Spec2Isabelle
  imports Complex_Main "HOL-Library.Product_Lexorder"
begin

section \<open>Ladder generation: data model\<close>

text \<open>
  A rung is the object \<^verbatim>\<open>{ fromColumn: col, row: row }\<close> of ladder.js: a horizontal
  connector in row \<open>row\<close> between the columns \<open>fromColumn\<close> and \<open>fromColumn + 1\<close>.
  Every number the generator stores in a rung is a loop counter or an array index, so
  both fields are natural numbers.

  \<^verbatim>\<open>Math.random()\<close> is made an explicit argument of every function that calls it.
  A test \<^verbatim>\<open>Math.random() < p\<close> is a boolean drawn for the loop position at which the
  call is made (the call happens at most once per position), and
  \<^verbatim>\<open>Math.floor(Math.random() * (i + 1))\<close> is a number \<open>rnd i\<close> drawn for the index \<open>i\<close>;
  the source guarantees \<open>rnd i \<le> i\<close>, which the theorems about the shuffle assume.

  A mapping is the JavaScript object \<^verbatim>\<open>{ start: end, ... }\<close> with numeric keys: a
  partial map from naturals to naturals. An absent key reads \<^verbatim>\<open>undefined\<close>, here
  \<open>None\<close>.
\<close>

record rung =
  fromColumn :: nat
  row :: nat

definition MIN_ROWS :: nat where "MIN_ROWS = 6"
definition ROWS_PER_PARTICIPANT :: nat where "ROWS_PER_PARTICIPANT = 3"
definition MAX_ROWS :: nat where "MAX_ROWS = 200"

subsection \<open>generateRandomMapping\<close>

text \<open>
  \<^verbatim>\<open>[a[i], a[j]] = [a[j], a[i]]\<close>: the right-hand side is read first, then \<open>a[i]\<close> and
  \<open>a[j]\<close> are written in this order.
\<close>

definition swap_elems :: "nat \<Rightarrow> nat \<Rightarrow> 'a list \<Rightarrow> 'a list" where
  "swap_elems i j xs = (xs[i := xs ! j])[j := xs ! i]"

text \<open>The loop \<^verbatim>\<open>for (let i = n - 1; i > 0; i--)\<close>, started at \<open>i\<close>.\<close>

fun fisher_yates :: "(nat \<Rightarrow> nat) \<Rightarrow> nat \<Rightarrow> nat list \<Rightarrow> nat list" where
  "fisher_yates rnd 0 shuffled = shuffled"
| "fisher_yates rnd (Suc k) shuffled =
     fisher_yates rnd k (swap_elems (Suc k) (rnd (Suc k)) shuffled)"

definition generateRandomMapping :: "(nat \<Rightarrow> nat) \<Rightarrow> nat \<Rightarrow> (nat \<rightharpoonup> nat)" where
  "generateRandomMapping rnd n =
     (let shuffled = fisher_yates rnd (n - 1) [0..<n]
      in fold (\<lambda>i mapping. mapping(shuffled ! i \<mapsto> i)) [0..<n] Map.empty)"

subsection \<open>generateRandomLines\<close>

text \<open>
  One iteration of the inner loop over \<open>col\<close>: skip when \<open>col\<close> or \<open>col + 1\<close> is used in
  this row, otherwise push a rung when the random test succeeds. The state is the set
  \<open>usedColumns\<close> of the row and the array \<open>lines\<close>.
\<close>

definition lines_col_step ::
  "(nat \<Rightarrow> nat \<Rightarrow> bool) \<Rightarrow> nat \<Rightarrow> nat \<Rightarrow> nat set \<times> rung list \<Rightarrow> nat set \<times> rung list" where
  "lines_col_step coin r col st =
     (case st of (usedColumns, lines) \<Rightarrow>
        if col \<in> usedColumns \<or> col + 1 \<in> usedColumns then (usedColumns, lines)
        else if coin r col
          then (insert (col + 1) (insert col usedColumns),
                lines @ [\<lparr>fromColumn = col, row = r\<rparr>])
          else (usedColumns, lines))"

text \<open>The body of the outer loop: a fresh \<open>usedColumns\<close>, then \<open>col\<close> from 0 to \<open>numColumns - 2\<close>.\<close>

definition lines_row_step ::
  "(nat \<Rightarrow> nat \<Rightarrow> bool) \<Rightarrow> nat \<Rightarrow> nat \<Rightarrow> rung list \<Rightarrow> rung list" where
  "lines_row_step coin numColumns r lines =
     snd (fold (lines_col_step coin r) [0..<numColumns - 1] ({}, lines))"

text \<open>The outer loop starts at row 1.\<close>

definition generateRandomLines ::
  "(nat \<Rightarrow> nat \<Rightarrow> bool) \<Rightarrow> nat \<Rightarrow> nat \<Rightarrow> rung list" where
  "generateRandomLines coin numColumns numRows =
     fold (lines_row_step coin numColumns) [1..<numRows] []"

subsection \<open>calculateMapping\<close>

text \<open>
  \<open>linesByRow\<close> has a key for every row below \<open>numRows\<close>, first bound to the empty array;
  a line is pushed to the array of its row when that key exists and dropped otherwise.
\<close>

definition group_lines :: "nat \<Rightarrow> rung list \<Rightarrow> (nat \<rightharpoonup> rung list)" where
  "group_lines numRows horizontalLines =
     fold (\<lambda>line linesByRow.
             case linesByRow (row line) of
               Some ls \<Rightarrow> linesByRow(row line \<mapsto> ls @ [line])
             | None \<Rightarrow> linesByRow)
          horizontalLines
          (fold (\<lambda>r linesByRow. linesByRow(r \<mapsto> [])) [0..<numRows] Map.empty)"

text \<open>
  The loop over the lines of one row, left at the first line that moves the column.
  At column 0 the source compares \<open>fromColumn\<close> with \<open>-1\<close>, which no rung has.
\<close>

fun trace_line :: "rung list \<Rightarrow> nat \<Rightarrow> nat" where
  "trace_line [] currentCol = currentCol"
| "trace_line (line # ls) currentCol =
     (if fromColumn line = currentCol then currentCol + 1
      else if 0 < currentCol \<and> fromColumn line = currentCol - 1 then currentCol - 1
      else trace_line ls currentCol)"

definition trace_col :: "(nat \<rightharpoonup> rung list) \<Rightarrow> nat \<Rightarrow> nat \<Rightarrow> nat" where
  "trace_col linesByRow numRows startCol =
     fold (\<lambda>r currentCol.
             trace_line (case linesByRow r of Some ls \<Rightarrow> ls | None \<Rightarrow> []) currentCol)
          [0..<numRows] startCol"

definition calculateMapping :: "nat \<Rightarrow> nat \<Rightarrow> rung list \<Rightarrow> (nat \<rightharpoonup> nat)" where
  "calculateMapping numColumns numRows horizontalLines =
     (let linesByRow = group_lines numRows horizontalLines
      in fold (\<lambda>startCol mapping. mapping(startCol \<mapsto> trace_col linesByRow numRows startCol))
           [0..<numColumns] Map.empty)"

subsection \<open>calculateAdjustmentTranspositions\<close>

text \<open>
  A JavaScript array whose elements may be missing is a list of options: \<open>None\<close> is a
  hole or \<^verbatim>\<open>undefined\<close>. Writing beyond the end extends the array with holes. When
  the index itself is \<^verbatim>\<open>undefined\<close> the write sets a property that is no element, and
  the elements stay as they are.
\<close>

definition array_set :: "'a option list \<Rightarrow> nat \<Rightarrow> 'a \<Rightarrow> 'a option list" where
  "array_set arr k v =
     (if k < length arr then arr[k := Some v]
      else arr @ replicate (k - length arr) None @ [Some v])"

definition array_get :: "'a option list \<Rightarrow> nat \<Rightarrow> 'a option" where
  "array_get arr k = (if k < length arr then arr ! k else None)"

text \<open>\<^verbatim>\<open>new Array(n)\<close> filled by \<^verbatim>\<open>perm[mapping[p]] = p\<close> for \<open>p\<close> from 0 to \<open>n - 1\<close>.\<close>

definition build_perm :: "(nat \<rightharpoonup> nat) \<Rightarrow> nat \<Rightarrow> nat option list" where
  "build_perm mapping n =
     fold (\<lambda>p perm. case mapping p of Some k \<Rightarrow> array_set perm k p | None \<Rightarrow> perm)
          [0..<n] (replicate n None)"

text \<open>\<^verbatim>\<open>indexOf\<close>: the first index holding the value, \<open>None\<close> for \<open>-1\<close>.\<close>

fun indexOf :: "'a list \<Rightarrow> 'a \<Rightarrow> nat option" where
  "indexOf [] x = None"
| "indexOf (y # ys) x = (if y = x then Some 0 else map_option Suc (indexOf ys x))"

text \<open>The \<^verbatim>\<open>while (currentPos > pos)\<close> loop.\<close>

function bubble ::
  "nat option list \<Rightarrow> nat list \<Rightarrow> nat \<Rightarrow> nat \<Rightarrow> nat option list \<times> nat list" where
  "bubble working transpositions pos currentPos =
     (if currentPos > pos
      then bubble (swap_elems (currentPos - 1) currentPos working)
                  (transpositions @ [currentPos - 1]) pos (currentPos - 1)
      else (working, transpositions))"
  by pat_completeness auto
termination
  by (relation "measure (\<lambda>(working, transpositions, pos, currentPos). currentPos)") auto

declare bubble.simps [simp del]

text \<open>The body of the loop over \<open>pos\<close>; \<^verbatim>\<open>-1 > pos\<close> never holds.\<close>

definition adjust_pos ::
  "nat option list \<Rightarrow> nat \<Rightarrow> nat option list \<times> nat list \<Rightarrow> nat option list \<times> nat list" where
  "adjust_pos targetPerm pos st =
     (case st of (working, transpositions) \<Rightarrow>
        (case indexOf working (array_get targetPerm pos) of
           None \<Rightarrow> (working, transpositions)
         | Some currentPos \<Rightarrow> bubble working transpositions pos currentPos))"

definition calculateAdjustmentTranspositions ::
  "(nat \<rightharpoonup> nat) \<Rightarrow> (nat \<rightharpoonup> nat) \<Rightarrow> nat \<Rightarrow> nat list" where
  "calculateAdjustmentTranspositions actualMapping targetMapping n =
     (let currentPerm = build_perm actualMapping n;
          targetPerm = build_perm targetMapping n
      in snd (fold (adjust_pos targetPerm) [0..<n] (currentPerm, [])))"

subsection \<open>addAdjustmentLines\<close>

text \<open>
  The inner loop \<^verbatim>\<open>for (let i = minRowIdx; i < rows.length; i++)\<close>: the first adjustment
  row from \<open>i\<close> on in which \<open>col\<close> and \<open>col + 1\<close> are both free.
\<close>

function find_row :: "nat set list \<Rightarrow> nat \<Rightarrow> nat \<Rightarrow> nat option" where
  "find_row usedRows col i =
     (if i < length usedRows
      then (if col \<notin> usedRows ! i \<and> col + 1 \<notin> usedRows ! i then Some i
            else find_row usedRows col (i + 1))
      else None)"
  by pat_completeness auto
termination
  by (relation "measure (\<lambda>(usedRows, col, i). length usedRows - i)") auto

declare find_row.simps [simp del]

text \<open>
  The body of the loop over the transpositions. The state is \<open>result\<close>, the array \<open>rows\<close>
  of used-column sets and \<open>minRowIdx\<close>. A new row is pushed before its index
  \<^verbatim>\<open>rows.length - 1\<close> is read.
\<close>

definition place_adjustment ::
  "nat \<Rightarrow> nat \<Rightarrow> rung list \<times> nat set list \<times> nat \<Rightarrow> rung list \<times> nat set list \<times> nat" where
  "place_adjustment startRow col st =
     (case st of (result, usedRows, minRowIdx) \<Rightarrow>
        (case find_row usedRows col minRowIdx of
           Some i \<Rightarrow>
             (result @ [\<lparr>fromColumn = col, row = startRow + i\<rparr>],
              usedRows[i := insert (col + 1) (insert col (usedRows ! i))],
              i)
         | None \<Rightarrow>
             (let pushed = usedRows @ [{col, col + 1}]
              in (result @ [\<lparr>fromColumn = col, row = startRow + length pushed - 1\<rparr>],
                  pushed,
                  length pushed - 1))))"

text \<open>The result is the pair of \<open>lines\<close> and \<open>numRows\<close>.\<close>

definition addAdjustmentLines ::
  "rung list \<Rightarrow> nat list \<Rightarrow> nat \<Rightarrow> nat \<Rightarrow> rung list \<times> nat" where
  "addAdjustmentLines lines transpositions startRow numColumns =
     (case fold (place_adjustment startRow) transpositions (lines, [], 0) of
        (result, usedRows, minRowIdx) \<Rightarrow> (result, startRow + max 1 (length usedRows)))"

subsection \<open>fillWithDecorativePairs\<close>

text \<open>\<^verbatim>\<open>usedByRow.get(row) || new Set()\<close>\<close>

definition used_or_empty :: "(nat \<rightharpoonup> nat set) \<Rightarrow> nat \<Rightarrow> nat set" where
  "used_or_empty usedByRow r = (case usedByRow r of Some s \<Rightarrow> s | None \<Rightarrow> {})"

text \<open>The body of the loop that builds the usage map: both columns of the line are added
  to the set of its row, which is created when the row has none.\<close>

definition add_usage :: "rung \<Rightarrow> (nat \<rightharpoonup> nat set) \<Rightarrow> (nat \<rightharpoonup> nat set)" where
  "add_usage line usedByRow =
     usedByRow(row line \<mapsto>
       insert (fromColumn line + 1)
         (insert (fromColumn line) (used_or_empty usedByRow (row line))))"

definition build_usage :: "rung list \<Rightarrow> (nat \<rightharpoonup> nat set)" where
  "build_usage lines = fold add_usage lines Map.empty"

definition fill_col_step ::
  "(nat \<Rightarrow> nat \<Rightarrow> bool) \<Rightarrow> nat \<Rightarrow> nat \<Rightarrow> nat set \<times> nat set \<times> rung list
     \<Rightarrow> nat set \<times> nat set \<times> rung list" where
  "fill_col_step coin r col st =
     (case st of (usedThisRow, usedNextRow, result) \<Rightarrow>
        if col \<in> usedThisRow \<or> col + 1 \<in> usedThisRow then st
        else if col \<in> usedNextRow \<or> col + 1 \<in> usedNextRow then st
        else if coin r col
          then (insert (col + 1) (insert col usedThisRow),
                insert (col + 1) (insert col usedNextRow),
                result @ [\<lparr>fromColumn = col, row = r\<rparr>, \<lparr>fromColumn = col, row = r + 1\<rparr>])
          else st)"

text \<open>
  The loop \<^verbatim>\<open>for (let row = 1; row < numRows - 1; row += 2)\<close>, started at \<open>r\<close>. For
  \<open>numRows = 0\<close> the bound is \<open>-1\<close> in the source and 0 here; no \<open>r \<ge> 1\<close> is below either.
\<close>

function fill_rows ::
  "(nat \<Rightarrow> nat \<Rightarrow> bool) \<Rightarrow> nat \<Rightarrow> nat \<Rightarrow> nat \<Rightarrow> (nat \<rightharpoonup> nat set) \<times> rung list \<Rightarrow> rung list" where
  "fill_rows coin numRows numColumns r st =
     (case st of (usedByRow, result) \<Rightarrow>
        if r < numRows - 1
        then (case fold (fill_col_step coin r) [0..<numColumns - 1]
                     (used_or_empty usedByRow r, used_or_empty usedByRow (r + 1), result) of
                (usedThisRow, usedNextRow, result') \<Rightarrow>
                  fill_rows coin numRows numColumns (r + 2)
                    (usedByRow(r \<mapsto> usedThisRow, r + 1 \<mapsto> usedNextRow), result'))
        else result)"
  by pat_completeness auto
termination
  by (relation "measure (\<lambda>(coin, numRows, numColumns, r, st). numRows - r)") auto

declare fill_rows.simps [simp del]

definition fillWithDecorativePairs ::
  "(nat \<Rightarrow> nat \<Rightarrow> bool) \<Rightarrow> rung list \<Rightarrow> nat \<Rightarrow> nat \<Rightarrow> rung list" where
  "fillWithDecorativePairs coin lines numRows numColumns =
     fill_rows coin numRows numColumns 1 (build_usage lines, lines)"

subsection \<open>generate\<close>

record ladderData =
  participants :: "string list"
  results :: "string list"
  verticalLines :: nat
  rows :: nat
  horizontalLines :: "rung list"
  mapping :: "nat \<rightharpoonup> nat"

text \<open>
  \<^verbatim>\<open>Math.round(numColumns * 3.0)\<close> is \<open>numColumns * 3\<close>. The comparator of the final sort
  orders by row, then by \<open>fromColumn\<close>: the lexicographic order of the pairs; the sort is
  stable.
\<close>

definition generate ::
  "(nat \<Rightarrow> nat \<Rightarrow> bool) \<Rightarrow> (nat \<Rightarrow> nat) \<Rightarrow> (nat \<Rightarrow> nat \<Rightarrow> bool)
     \<Rightarrow> string list \<Rightarrow> string list \<Rightarrow> ladderData" where
  "generate coinLines rnd coinFill ps rs =
     (let numColumns = length ps;
          baseRows = max MIN_ROWS (min MAX_ROWS (numColumns * ROWS_PER_PARTICIPANT));
          naturalLines = generateRandomLines coinLines numColumns baseRows;
          actualMapping = calculateMapping numColumns baseRows naturalLines;
          targetMapping = generateRandomMapping rnd numColumns;
          adjustments = calculateAdjustmentTranspositions actualMapping targetMapping numColumns
      in case addAdjustmentLines naturalLines adjustments baseRows numColumns of
           (finalLines, numRows) \<Rightarrow>
             (let filledLines = fillWithDecorativePairs coinFill finalLines (numRows + 1) numColumns
              in \<lparr>participants = ps,
                  results = rs,
                  verticalLines = numColumns,
                  rows = numRows + 1,
                  horizontalLines = sort_key (\<lambda>l. (row l, fromColumn l)) filledLines,
                  mapping = targetMapping\<rparr>))"

subsection \<open>getResultForParticipant\<close>

text \<open>
  \<^verbatim>\<open>ladderData.results[resultIndex] || ''\<close>: a missing key of the mapping, an index
  outside the array and the empty string all give the empty string. The participant
  index is any integer.
\<close>

definition getResultForParticipant :: "ladderData \<Rightarrow> int \<Rightarrow> string" where
  "getResultForParticipant ld participantIndex =
     (let resultIndex =
            (if 0 \<le> participantIndex then mapping ld (nat participantIndex) else None);
          found =
            (case resultIndex of
               None \<Rightarrow> None
             | Some k \<Rightarrow> if k < length (results ld) then Some (results ld ! k) else None)
      in case found of None \<Rightarrow> [] | Some s \<Rightarrow> if s = [] then [] else s)"

section \<open>The input controller (main.js)\<close>

text \<open>
  A string is a list of characters; a character stands for a UTF-16 code unit below 256.
  The validation only compares strings and counts them.

  The error messages of \<open>validateInputs\<close> are Korean sentences; each is a constructor here,
  in the order of the checks: fewer than two participants, fewer than two results,
  different counts (the message shows both), more than 100 participants, duplicate
  participant names. \<open>null\<close> is \<open>None\<close>. The size of \<^verbatim>\<open>new Set(participants)\<close> is the
  number of different strings.
\<close>

datatype validation_error =
    TooFewParticipants
  | TooFewResults
  | CountMismatch nat nat
  | TooManyParticipants
  | DuplicateParticipants

definition validateInputs :: "string list \<Rightarrow> string list \<Rightarrow> validation_error option" where
  "validateInputs ps rs =
     (if length ps < 2 then Some TooFewParticipants
      else if length rs < 2 then Some TooFewResults
      else if length ps \<noteq> length rs then Some (CountMismatch (length ps) (length rs))
      else if length ps > 100 then Some TooManyParticipants
      else if card (set ps) \<noteq> length ps then Some DuplicateParticipants
      else None)"

text \<open>
  \<open>parseTextareaLines\<close>: split at line feeds, trim every line, drop the empty ones.
  \<^verbatim>\<open>split\<close> always returns at least one string. \<^verbatim>\<open>trim\<close> removes the white space and
  line terminators of the language at both ends; below 256 these are the code units
  9 to 13, 32 and 160.
\<close>

fun split_on :: "char \<Rightarrow> string \<Rightarrow> string list" where
  "split_on sep [] = [[]]"
| "split_on sep (c # cs) =
     (if c = sep then [] # split_on sep cs
      else (case split_on sep cs of
              [] \<Rightarrow> [[c]]
            | piece # pieces \<Rightarrow> (c # piece) # pieces))"

definition is_space :: "char \<Rightarrow> bool" where
  "is_space c \<longleftrightarrow> of_char c \<in> {9, 10, 11, 12, 13, 32, 160 :: nat}"

definition trim :: "string \<Rightarrow> string" where
  "trim s = rev (dropWhile is_space (rev (dropWhile is_space s)))"

definition parseTextareaLines :: "string \<Rightarrow> string list" where
  "parseTextareaLines text = filter (\<lambda>line. length line > 0) (map trim (split_on (CHR 0x0A) text))"

text \<open>
  \<open>handleStart\<close> reads the two text areas, validates, and either shows the error and
  returns, or stores the generated ladder in the state, renders it, shows the summary and
  switches to the result view. The model returns the new value of \<^verbatim>\<open>state.ladderData\<close>
  and, in order, the calls the handler makes.
\<close>

datatype call =
    ShowError validation_error
  | Generate "string list" "string list"
  | Render ladderData
  | DisplayResultSummary ladderData
  | ShowResultSection

definition handleStart ::
  "(nat \<Rightarrow> nat \<Rightarrow> bool) \<Rightarrow> (nat \<Rightarrow> nat) \<Rightarrow> (nat \<Rightarrow> nat \<Rightarrow> bool)
     \<Rightarrow> string \<Rightarrow> string \<Rightarrow> ladderData option \<Rightarrow> ladderData option \<times> call list" where
  "handleStart coinLines rnd coinFill participantsText resultsText stateLadderData =
     (let ps = parseTextareaLines participantsText;
          rs = parseTextareaLines resultsText
      in case validateInputs ps rs of
           Some validationError \<Rightarrow> (stateLadderData, [ShowError validationError])
         | None \<Rightarrow>
             (let ld = generate coinLines rnd coinFill ps rs
              in (Some ld, [Generate ps rs, Render ld, DisplayResultSummary ld, ShowResultSection])))"

section \<open>The shareable link (share.js)\<close>

text \<open>
  \<open>generateShareableURL\<close> and \<open>parseShareableURL\<close> are compositions of functions of the
  platform. Those whose behaviour decides the round trip are written out from their
  standards, on strings of code units below 256: \<^verbatim>\<open>JSON.stringify\<close> on an object of two
  string arrays, \<^verbatim>\<open>encodeURIComponent\<close>, \<^verbatim>\<open>btoa\<close>, the query of a URL and
  \<^verbatim>\<open>searchParams.get\<close>, and \<^verbatim>\<open>atob\<close>. The others are arguments of the model:
  whether \<^verbatim>\<open>new URL\<close> accepts the string, the percent-decoding and UTF-8 decoding of a query
  component that contains a percent sign or a code unit above 127, and
  \<^verbatim>\<open>JSON.parse(decodeURIComponent(...))\<close> with the construction of the returned object.
  \<open>null\<close> and a caught exception are \<open>None\<close>.
\<close>

subsection \<open>JSON.stringify of the two arrays\<close>

definition hex_digit :: "string \<Rightarrow> nat \<Rightarrow> char" where
  "hex_digit digits d = digits ! (d mod 16)"

text \<open>
  A string is quoted with the two-character escapes for backspace, tab, line feed, form
  feed, carriage return, the double quote and the backslash, with \<^verbatim>\<open>\u00xx\<close> (lower-case
  digits) for the other code units below 32, and unchanged otherwise.
\<close>

definition json_quote_char :: "char \<Rightarrow> string" where
  "json_quote_char c =
     (let u = (of_char c :: nat)
      in if u = 8 then [CHR 0x5C, CHR ''b'']
         else if u = 9 then [CHR 0x5C, CHR ''t'']
         else if u = 10 then [CHR 0x5C, CHR ''n'']
         else if u = 12 then [CHR 0x5C, CHR ''f'']
         else if u = 13 then [CHR 0x5C, CHR ''r'']
         else if u = 34 then [CHR 0x5C, CHR 0x22]
         else if u = 92 then [CHR 0x5C, CHR 0x5C]
         else if u < 32
           then [CHR 0x5C, CHR ''u'', CHR ''0'', CHR ''0'',
                 hex_digit ''0123456789abcdef'' (u div 16), hex_digit ''0123456789abcdef'' u]
         else [c])"

definition json_quote :: "string \<Rightarrow> string" where
  "json_quote s = [CHR 0x22] @ concat (map json_quote_char s) @ [CHR 0x22]"

fun join :: "string \<Rightarrow> string list \<Rightarrow> string" where
  "join sep [] = []"
| "join sep [x] = x"
| "join sep (x # y # ys) = x @ sep @ join sep (y # ys)"

definition json_array :: "string list \<Rightarrow> string" where
  "json_array xs = ''['' @ join '','' (map json_quote xs) @ '']''"

text \<open>The object \<^verbatim>\<open>{ p: participants, r: results }\<close>, its keys in this order.\<close>

definition json_stringify_data :: "string list \<Rightarrow> string list \<Rightarrow> string" where
  "json_stringify_data ps rs =
     ''{'' @ json_quote ''p'' @ '':'' @ json_array ps @ '','' @ json_quote ''r'' @ '':''
        @ json_array rs @ ''}''"

subsection \<open>encodeURIComponent\<close>

text \<open>
  Letters, digits and \<^verbatim>\<open>- _ . ! ~ * ' ( )\<close> stay; every other code unit is replaced by the
  percent-encoded bytes of its UTF-8 form (one byte below 128, two bytes from 128 to 255),
  with upper-case digits.
\<close>

definition uri_unreserved :: "char \<Rightarrow> bool" where
  "uri_unreserved c \<longleftrightarrow>
     c \<in> set (''ABCDEFGHIJKLMNOPQRSTUVWXYZabcdefghijklmnopqrstuvwxyz0123456789-_.!~*()'' @ [CHR 0x27])"

definition percent_byte :: "nat \<Rightarrow> string" where
  "percent_byte b =
     [CHR ''%'', hex_digit ''0123456789ABCDEF'' (b div 16), hex_digit ''0123456789ABCDEF'' b]"

definition encode_char :: "char \<Rightarrow> string" where
  "encode_char c =
     (let u = (of_char c :: nat)
      in if uri_unreserved c then [c]
         else if u < 128 then percent_byte u
         else percent_byte (192 + u div 64) @ percent_byte (128 + u mod 64))"

definition encodeURIComponent :: "string \<Rightarrow> string" where
  "encodeURIComponent s = concat (map encode_char s)"

subsection \<open>btoa and atob\<close>

definition base64_alphabet :: string where
  "base64_alphabet = ''ABCDEFGHIJKLMNOPQRSTUVWXYZabcdefghijklmnopqrstuvwxyz0123456789+/''"

definition base64_char :: "nat \<Rightarrow> char" where
  "base64_char v = base64_alphabet ! (v mod 64)"

text \<open>Three bytes give four characters; one or two remaining bytes are padded with \<^verbatim>\<open>=\<close>.\<close>

fun base64_encode :: "nat list \<Rightarrow> string" where
  "base64_encode (a # b # c # bytes) =
     [base64_char (a div 4), base64_char ((a mod 4) * 16 + b div 16),
      base64_char ((b mod 16) * 4 + c div 64), base64_char (c mod 64)] @ base64_encode bytes"
| "base64_encode [a, b] =
     [base64_char (a div 4), base64_char ((a mod 4) * 16 + b div 16),
      base64_char ((b mod 16) * 4), CHR ''='']"
| "base64_encode [a] =
     [base64_char (a div 4), base64_char ((a mod 4) * 16), CHR ''='', CHR ''='']"
| "base64_encode [] = []"

definition btoa :: "string \<Rightarrow> string" where
  "btoa s = base64_encode (map of_char s)"

text \<open>
  \<^verbatim>\<open>atob\<close>: ASCII white space (tab, line feed, form feed, carriage return, space) is
  removed; when the length is then a multiple of four, one or two \<^verbatim>\<open>=\<close> at the end are
  removed; a length that leaves remainder one, or a character outside the alphabet,
  raises the exception; four characters give three bytes, and the spare bits of two or
  three remaining characters are dropped.
\<close>

definition ascii_whitespace :: "char \<Rightarrow> bool" where
  "ascii_whitespace c \<longleftrightarrow> of_char c \<in> {9, 10, 12, 13, 32 :: nat}"

definition strip_padding :: "string \<Rightarrow> string" where
  "strip_padding s =
     (if length s mod 4 = 0
      then (if 2 \<le> length s \<and> drop (length s - 2) s = ''==''
            then take (length s - 2) s
            else if 1 \<le> length s \<and> drop (length s - 1) s = ''=''
            then take (length s - 1) s
            else s)
      else s)"

fun base64_decode :: "nat list \<Rightarrow> nat list" where
  "base64_decode (a # b # c # d # vs) =
     [a * 4 + b div 16, (b mod 16) * 16 + c div 4, (c mod 4) * 64 + d] @ base64_decode vs"
| "base64_decode [a, b, c] = [a * 4 + b div 16, (b mod 16) * 16 + c div 4]"
| "base64_decode [a, b] = [a * 4 + b div 16]"
| "base64_decode [a] = []"
| "base64_decode [] = []"

definition atob :: "string \<Rightarrow> string option" where
  "atob encoded =
     (let stripped = strip_padding (filter (\<lambda>c. \<not> ascii_whitespace c) encoded)
      in if length stripped mod 4 = 1 then None
         else if \<exists>c \<in> set stripped. indexOf base64_alphabet c = None then None
         else Some (map char_of
                (base64_decode (map (\<lambda>c. the (indexOf base64_alphabet c)) stripped))))"

subsection \<open>generateShareableURL\<close>

text \<open>
  \<open>origin\<close> and \<open>pathname\<close> are those of \<^verbatim>\<open>window.location\<close>. On the strings of this
  model none of the three encoders raises an exception.
\<close>

definition generateShareableURL :: "string \<Rightarrow> string \<Rightarrow> ladderData \<Rightarrow> string option" where
  "generateShareableURL origin pathname ld =
     (let encoded = btoa (encodeURIComponent
                      (json_stringify_data (participants ld) (results ld)));
          url = origin @ pathname @ ''?data='' @ encoded
      in if length url > 2000 then None else Some url)"

subsection \<open>parseShareableURL\<close>

text \<open>
  The query of a URL that \<^verbatim>\<open>new URL\<close> accepts lies between the first \<^verbatim>\<open>?\<close> and the first
  \<^verbatim>\<open>#\<close>. \<^verbatim>\<open>searchParams\<close> splits it at \<^verbatim>\<open>&\<close>, drops empty pieces, splits every piece at
  its first \<^verbatim>\<open>=\<close>, replaces every \<^verbatim>\<open>+\<close> of a name or value by a space, and then
  percent-decodes and UTF-8 decodes it: that last step changes nothing when there is no
  percent sign and no code unit above 127, and is the argument \<open>decodeRest\<close> otherwise.
  \<^verbatim>\<open>get\<close> returns the value of the first pair with the name, or \<open>null\<close>.
\<close>

definition url_search :: "string \<Rightarrow> string" where
  "url_search url =
     (case dropWhile (\<lambda>c. c \<noteq> CHR ''?'') (takeWhile (\<lambda>c. c \<noteq> CHR ''#'') url) of
        [] \<Rightarrow> []
      | questionMark # query \<Rightarrow> query)"

definition form_decode :: "(string \<Rightarrow> string) \<Rightarrow> string \<Rightarrow> string" where
  "form_decode decodeRest s =
     (let spaced = map (\<lambda>c. if c = CHR ''+'' then CHR '' '' else c) s
      in if \<forall>c \<in> set spaced. c \<noteq> CHR ''%'' \<and> (of_char c :: nat) < 128 then spaced
         else decodeRest spaced)"

definition search_params :: "(string \<Rightarrow> string) \<Rightarrow> string \<Rightarrow> (string \<times> string) list" where
  "search_params decodeRest query =
     map (\<lambda>piece.
            (form_decode decodeRest (takeWhile (\<lambda>c. c \<noteq> CHR ''='') piece),
             form_decode decodeRest (drop 1 (dropWhile (\<lambda>c. c \<noteq> CHR ''='') piece))))
         (filter (\<lambda>piece. piece \<noteq> []) (split_on (CHR ''&'') query))"

definition search_params_get :: "(string \<times> string) list \<Rightarrow> string \<Rightarrow> string option" where
  "search_params_get params name = map_option snd (find (\<lambda>pair. fst pair = name) params)"

text \<open>
  \<^verbatim>\<open>!encoded\<close> holds for \<open>null\<close> and for the empty string. \<open>decodeData\<close> is
  \<^verbatim>\<open>JSON.parse(decodeURIComponent(...))\<close> followed by the construction of the returned object,
  \<open>None\<close> when one of them raises an exception.
\<close>

definition parseShareableURL ::
  "(string \<Rightarrow> bool) \<Rightarrow> (string \<Rightarrow> string) \<Rightarrow> (string \<Rightarrow> 'r option) \<Rightarrow> string \<Rightarrow> 'r option" where
  "parseShareableURL urlAccepted decodeRest decodeData urlString =
     (if \<not> urlAccepted urlString then None
      else case search_params_get (search_params decodeRest (url_search urlString)) ''data'' of
             None \<Rightarrow> None
           | Some encoded \<Rightarrow>
               if encoded = [] then None
               else (case atob encoded of
                       None \<Rightarrow> None
                     | Some binary \<Rightarrow> decodeData binary))"

section \<open>Vocabulary of the properties\<close>

text \<open>
  The effect of a transposition \<open>c\<close> (a rung between the columns \<open>c\<close> and \<open>c + 1\<close>) on a
  column, the columns a rung touches, the columns touched in a row of a rung list, the
  rungs of one row in their order, and the trace of a column through a list of rows.
\<close>

definition swap_columns :: "nat \<Rightarrow> nat \<Rightarrow> nat" where
  "swap_columns c x = (if x = c then c + 1 else if x = c + 1 then c else x)"

definition rung_columns :: "rung \<Rightarrow> nat set" where
  "rung_columns l = {fromColumn l, fromColumn l + 1}"

definition touched :: "rung list \<Rightarrow> nat \<Rightarrow> nat set" where
  "touched lines r = (\<Union>l \<in> {l \<in> set lines. row l = r}. rung_columns l)"

definition no_overlap :: "rung list \<Rightarrow> bool" where
  "no_overlap lines \<longleftrightarrow>
     distinct lines \<and>
     (\<forall>a \<in> set lines. \<forall>b \<in> set lines.
        a \<noteq> b \<and> row a = row b \<longrightarrow> rung_columns a \<inter> rung_columns b = {})"

definition lines_at :: "rung list \<Rightarrow> nat \<Rightarrow> rung list" where
  "lines_at lines r = filter (\<lambda>l. row l = r) lines"

definition trace_rows :: "rung list \<Rightarrow> nat list \<Rightarrow> nat \<Rightarrow> nat" where
  "trace_rows lines rs x = fold (\<lambda>r cur. trace_line (lines_at lines r) cur) rs x"

text \<open>
  The state of the loop of \<open>addAdjustmentLines\<close> after some placements: \<open>adj\<close> are the rungs
  appended so far, \<open>usedRows ! i\<close> holds the columns they touch in row \<open>startRow + i\<close>, and
  none of them lies above row \<open>startRow + minRowIdx\<close>.
\<close>

definition adjustment_invariant :: "nat \<Rightarrow> rung list \<Rightarrow> nat set list \<Rightarrow> nat \<Rightarrow> bool" where
  "adjustment_invariant startRow adj usedRows minRowIdx \<longleftrightarrow>
     (\<forall>i < length usedRows. usedRows ! i = touched adj (startRow + i)) \<and>
     (\<forall>l \<in> set adj. startRow \<le> row l \<and> row l \<le> startRow + minRowIdx
                      \<and> row l < startRow + length usedRows)"

text \<open>
  A mapping is a permutation of \<open>0..n-1\<close> when its keys are \<open>0..n-1\<close> and it maps them
  one-to-one onto \<open>0..n-1\<close>. The draws of one run of the shuffle are a list \<open>js\<close> whose
  element \<open>i - 1\<close> is the number drawn for the index \<open>i\<close>, one of \<open>0..i\<close>.
\<close>

definition is_permutation :: "nat \<Rightarrow> (nat \<rightharpoonup> nat) \<Rightarrow> bool" where
  "is_permutation n m \<longleftrightarrow> dom m = {0..<n} \<and> bij_betw (\<lambda>p. the (m p)) {0..<n} {0..<n}"

definition fy_choices :: "nat \<Rightarrow> nat list set" where
  "fy_choices n = {js. length js = n - 1 \<and> (\<forall>i < n - 1. js ! i \<le> Suc i)}"

definition draw :: "nat list \<Rightarrow> nat \<Rightarrow> nat" where
  "draw js i = js ! (i - 1)"

text \<open>
  Applying a list of transpositions to a mapping, in the order of the list, sends every
  end column through the swaps. An inversion between two arrangements is a pair of
  participants that the first puts in one order and the second in the other. The arrays
  of \<open>calculateAdjustmentTranspositions\<close> are arrangements: \<open>w\<close> holds the participant \<open>p\<close>
  at the position \<open>a p\<close>.
\<close>

definition apply_transpositions :: "nat list \<Rightarrow> (nat \<rightharpoonup> nat) \<Rightarrow> (nat \<rightharpoonup> nat)" where
  "apply_transpositions ts m = (\<lambda>p. map_option (fold swap_columns ts) (m p))"

definition inversions :: "nat \<Rightarrow> (nat \<Rightarrow> nat) \<Rightarrow> (nat \<Rightarrow> nat) \<Rightarrow> (nat \<times> nat) set" where
  "inversions n a t = {(p, q). p < n \<and> q < n \<and> a p < a q \<and> t q < t p}"

definition arranged :: "nat \<Rightarrow> nat option list \<Rightarrow> (nat \<Rightarrow> nat) \<Rightarrow> bool" where
  "arranged n w a \<longleftrightarrow>
     length w = n \<and> inj_on a {0..<n} \<and> (\<forall>p < n. a p < n \<and> w ! a p = Some p)"

section \<open>Natural rungs start at row 1\<close>

lemma lines_col_fold_rows:
  assumes "\<forall>l \<in> set (snd st). P (row l)" and "P r"
  shows "\<forall>l \<in> set (snd (fold (lines_col_step coin r) cols st)). P (row l)"
  using assms
proof (induction cols arbitrary: st)
  case Nil
  then show ?case by simp
next
  case (Cons c cols)
  have "\<forall>l \<in> set (snd (lines_col_step coin r c st)). P (row l)"
    using Cons.prems by (cases st) (auto simp: lines_col_step_def)
  then show ?case using Cons.IH Cons.prems(2) by simp
qed

lemma lines_row_fold_rows:
  assumes "\<forall>l \<in> set lines. P (row l)" and "\<forall>r \<in> set rs. P r"
  shows "\<forall>l \<in> set (fold (lines_row_step coin numColumns) rs lines). P (row l)"
  using assms
proof (induction rs arbitrary: lines)
  case Nil
  then show ?case by simp
next
  case (Cons r rs)
  have "\<forall>l \<in> set (lines_row_step coin numColumns r lines). P (row l)"
    unfolding lines_row_step_def
    using lines_col_fold_rows [of "({}, lines)" P r coin] Cons.prems by simp
  then show ?case using Cons.IH Cons.prems(2) by simp
qed

lemma generateRandomLines_rows:
  "l \<in> set (generateRandomLines coin numColumns numRows) \<Longrightarrow> 1 \<le> row l \<and> row l < numRows"
  unfolding generateRandomLines_def
  using lines_row_fold_rows [of "[]" "\<lambda>r. 1 \<le> r \<and> r < numRows" "[1..<numRows]" coin numColumns]
  by auto

text \<open>
  C9. For \<open>numColumns \<ge> 2\<close> and \<open>numRows \<ge> 1\<close>, every line returned by
  \<open>generateRandomLines\<close> has a row index \<open>r\<close> with \<open>1 \<le> r \<le> numRows - 1\<close>: natural rung
  generation starts at the second row, and row 0 never receives a natural rung.
\<close>

theorem generateRandomLines_row_range:
  assumes "2 \<le> numColumns" and "1 \<le> numRows"
  shows "\<forall>l \<in> set (generateRandomLines coin numColumns numRows).
           1 \<le> row l \<and> row l \<le> numRows - 1 \<and> row l \<noteq> 0"
  using generateRandomLines_rows [of _ coin numColumns numRows] assms by fastforce

theorem generateRandomLines_row_range_witness:
  "(2::nat) \<le> 2 \<and> (1::nat) \<le> 3
   \<and> generateRandomLines (\<lambda>r c. True) 2 3
       = [\<lparr>fromColumn = 0, row = 1\<rparr>, \<lparr>fromColumn = 0, row = 2\<rparr>]
   \<and> 1 \<le> row \<lparr>fromColumn = 0, row = 2\<rparr> \<and> row \<lparr>fromColumn = 0, row = 2\<rparr> \<le> 3 - 1
   \<and> row \<lparr>fromColumn = 0, row = 2\<rparr> \<noteq> 0"
proof -
  have h1: "(2::nat) \<le> 2" and h2: "(1::nat) \<le> 3" by simp_all
  have ev: "generateRandomLines (\<lambda>r c. True) 2 3
              = [\<lparr>fromColumn = 0, row = 1\<rparr>, \<lparr>fromColumn = 0, row = 2\<rparr>]"
    by code_simp
  have "\<lparr>fromColumn = 0, row = 2\<rparr> \<in> set (generateRandomLines (\<lambda>r c. True) 2 3)"
    unfolding ev by simp
  with generateRandomLines_row_range [OF h1 h2, of "\<lambda>r c. True"]
  have "1 \<le> row \<lparr>fromColumn = 0, row = 2\<rparr> \<and> row \<lparr>fromColumn = 0, row = 2\<rparr> \<le> 3 - 1
        \<and> row \<lparr>fromColumn = 0, row = 2\<rparr> \<noteq> 0"
    by blast
  with h1 h2 ev show ?thesis by blast
qed

section \<open>Looking up a participant's result\<close>

text \<open>
  C10. For a ladder whose participants and results both have length \<open>N\<close> and whose mapping
  is the one of the data model (its keys are \<open>0..N-1\<close> and its values lie in \<open>0..N-1\<close>),
  \<open>getResultForParticipant\<close> returns \<open>results[mapping[participantIndex]]\<close> for a participant
  index in \<open>0..N-1\<close> and the empty string for every other index.
\<close>

theorem getResultForParticipant_lookup:
  assumes "length (participants ld) = N" and "length (results ld) = N"
    and "dom (mapping ld) = {0..<N}" and "ran (mapping ld) \<subseteq> {0..<N}"
  shows "(0 \<le> i \<and> i < int N \<longrightarrow>
            getResultForParticipant ld i = results ld ! the (mapping ld (nat i)))
       \<and> (\<not> (0 \<le> i \<and> i < int N) \<longrightarrow> getResultForParticipant ld i = [])"
proof (intro conjI impI)
  assume r: "0 \<le> i \<and> i < int N"
  then have "nat i \<in> dom (mapping ld)" using assms(3) by auto
  then obtain k where k: "mapping ld (nat i) = Some k" by auto
  then have "k \<in> ran (mapping ld)" by (auto simp: ran_def)
  then have "k < length (results ld)" using assms(2,4) by auto
  with k r show "getResultForParticipant ld i = results ld ! the (mapping ld (nat i))"
    by (simp add: getResultForParticipant_def)
next
  assume r: "\<not> (0 \<le> i \<and> i < int N)"
  show "getResultForParticipant ld i = []"
  proof (cases "0 \<le> i")
    case True
    with r have "nat i \<notin> dom (mapping ld)" using assms(3) by auto
    then have "mapping ld (nat i) = None" by auto
    with True show ?thesis by (simp add: getResultForParticipant_def)
  next
    case False
    then show ?thesis by (simp add: getResultForParticipant_def)
  qed
qed

theorem getResultForParticipant_lookup_witness:
  "getResultForParticipant
     \<lparr>participants = [''A'', ''B''], results = [''X'', ''Y''], verticalLines = 2, rows = 7,
      horizontalLines = [\<lparr>fromColumn = 0, row = 6\<rparr>], mapping = [0 \<mapsto> 1, 1 \<mapsto> 0]\<rparr> 1 = ''X''
   \<and> getResultForParticipant
     \<lparr>participants = [''A'', ''B''], results = [''X'', ''Y''], verticalLines = 2, rows = 7,
      horizontalLines = [\<lparr>fromColumn = 0, row = 6\<rparr>], mapping = [0 \<mapsto> 1, 1 \<mapsto> 0]\<rparr> 2 = []
   \<and> getResultForParticipant
     \<lparr>participants = [''A'', ''B''], results = [''X'', ''Y''], verticalLines = 2, rows = 7,
      horizontalLines = [\<lparr>fromColumn = 0, row = 6\<rparr>], mapping = [0 \<mapsto> 1, 1 \<mapsto> 0]\<rparr> (- 1) = []"
proof -
  define ld where "ld = \<lparr>participants = [''A'', ''B''], results = [''X'', ''Y''],
      verticalLines = 2, rows = 7, horizontalLines = [\<lparr>fromColumn = 0, row = 6\<rparr>],
      mapping = [0 \<mapsto> 1, 1 \<mapsto> (0::nat)]\<rparr>"
  have h1: "length (participants ld) = 2" and h2: "length (results ld) = 2"
    by (simp_all add: ld_def)
  have h3: "dom (mapping ld) = {0..<2}" by (auto simp: ld_def)
  have h4: "ran (mapping ld) \<subseteq> {0..<2}" by (auto simp: ld_def ran_def)
  have "getResultForParticipant ld 1 = results ld ! the (mapping ld (nat 1))"
    using getResultForParticipant_lookup [OF h1 h2 h3 h4, of 1] by simp
  moreover have "getResultForParticipant ld 2 = []"
    using getResultForParticipant_lookup [OF h1 h2 h3 h4, of 2] by simp
  moreover have "getResultForParticipant ld (- 1) = []"
    using getResultForParticipant_lookup [OF h1 h2 h3 h4, of "- 1"] by simp
  ultimately show ?thesis by (simp add: ld_def)
qed

section \<open>Tracing: closed forms\<close>

lemma init_rows_closed:
  "fold (\<lambda>r linesByRow. linesByRow(r \<mapsto> [])) [0..<n] Map.empty
     = (\<lambda>r. if r < n then Some [] else None)"
proof (induction n)
  case 0
  then show ?case by simp
next
  case (Suc n)
  then show ?case by (auto simp: fun_eq_iff)
qed

lemma group_fold_closed:
  assumes "\<And>r. m r = (if r < n then Some (g r) else None)"
  shows "fold (\<lambda>line linesByRow.
             case linesByRow (row line) of
               Some ls \<Rightarrow> linesByRow(row line \<mapsto> ls @ [line])
             | None \<Rightarrow> linesByRow) ls m r
         = (if r < n then Some (g r @ lines_at ls r) else None)"
  using assms
proof (induction ls arbitrary: m g)
  case Nil
  then show ?case by (simp add: lines_at_def)
next
  case (Cons l ls)
  let ?m' = "case m (row l) of Some xs \<Rightarrow> m(row l \<mapsto> xs @ [l]) | None \<Rightarrow> m"
  let ?g' = "\<lambda>r. if r = row l then g r @ [l] else g r"
  have "\<And>r. ?m' r = (if r < n then Some (?g' r) else None)"
    using Cons.prems by (auto split: option.splits)
  from Cons.IH [of ?m' ?g', OF this] show ?case
    by (simp add: lines_at_def)
qed

lemma group_lines_closed:
  "group_lines numRows ls r = (if r < numRows then Some (lines_at ls r) else None)"
  unfolding group_lines_def init_rows_closed
  using group_fold_closed [of "\<lambda>r. if r < numRows then Some [] else None" numRows "\<lambda>r. []" ls r]
  by simp

lemma trace_col_closed:
  "trace_col (group_lines numRows ls) numRows x = trace_rows ls [0..<numRows] x"
  unfolding trace_col_def trace_rows_def
  by (rule fold_cong) (simp_all add: group_lines_closed)

lemma calculateMapping_closed:
  "calculateMapping numColumns numRows ls
     = (\<lambda>c. if c < numColumns then Some (trace_rows ls [0..<numRows] c) else None)"
proof -
  have "fold (\<lambda>startCol mapping. mapping(startCol \<mapsto> f startCol)) [0..<k] Map.empty
          = (\<lambda>c. if c < k then Some (f c) else None)" for f :: "nat \<Rightarrow> nat" and k
    by (induction k) (auto simp: fun_eq_iff)
  then show ?thesis
    unfolding calculateMapping_def Let_def trace_col_closed [symmetric] by simp
qed

section \<open>One row of the trace\<close>

lemma trace_line_untouched:
  "(\<forall>l \<in> set A. x \<notin> rung_columns l) \<Longrightarrow> trace_line A x = x"
  by (induction A) (auto simp: rung_columns_def)

lemma trace_line_in_columns:
  "trace_line A x \<noteq> x \<Longrightarrow> \<exists>l \<in> set A. x \<in> rung_columns l \<and> trace_line A x \<in> rung_columns l"
  by (induction A) (auto simp: rung_columns_def split: if_splits)

lemma trace_line_snoc_free:
  assumes "\<forall>l \<in> set A. rung_columns l \<inter> {c, c + 1} = {}"
  shows "trace_line (A @ [\<lparr>fromColumn = c, row = r\<rparr>]) x = swap_columns c (trace_line A x)"
  using assms
proof (induction A)
  case Nil
  then show ?case by (auto simp: swap_columns_def)
next
  case (Cons l A)
  then show ?case by (auto simp: swap_columns_def rung_columns_def)
qed

lemma trace_line_snoc_free':
  assumes "\<forall>l \<in> set A. rung_columns l \<inter> {c, c + 1} = {}"
  shows "trace_line (A @ [\<lparr>fromColumn = c, row = r\<rparr>]) x = trace_line A (swap_columns c x)"
proof (cases "x = c \<or> x = c + 1")
  case True
  then have "\<forall>l \<in> set A. x \<notin> rung_columns l" "\<forall>l \<in> set A. swap_columns c x \<notin> rung_columns l"
    using assms by (auto simp: swap_columns_def)
  then show ?thesis
    using trace_line_snoc_free [OF assms, of r x] by (simp add: trace_line_untouched)
next
  case False
  then have x: "swap_columns c x = x" by (simp add: swap_columns_def)
  have "trace_line A x \<noteq> c \<and> trace_line A x \<noteq> c + 1"
  proof (cases "trace_line A x = x")
    case True
    with False show ?thesis by simp
  next
    case neq: False
    from trace_line_in_columns [OF this] assms show ?thesis by auto
  qed
  then have "swap_columns c (trace_line A x) = trace_line A x" by (simp add: swap_columns_def)
  then show ?thesis using trace_line_snoc_free [OF assms, of r x] x by simp
qed

lemma swap_columns_involution [simp]: "swap_columns c (swap_columns c x) = x"
  by (simp add: swap_columns_def)


section \<open>Tracing through several rows\<close>

lemma trace_rows_append:
  "trace_rows ls (rs @ rs') x = trace_rows ls rs' (trace_rows ls rs x)"
  by (simp add: trace_rows_def)

lemma trace_rows_Cons:
  "trace_rows ls (r # rs) x = trace_rows ls rs (trace_line (lines_at ls r) x)"
  by (simp add: trace_rows_def)

lemma trace_rows_Nil [simp]: "trace_rows ls [] x = x"
  by (simp add: trace_rows_def)

lemma trace_rows_cong:
  "(\<And>r. r \<in> set rs \<Longrightarrow> lines_at ls r = lines_at ls' r) \<Longrightarrow> trace_rows ls rs x = trace_rows ls' rs x"
  unfolding trace_rows_def by (rule fold_cong) auto

lemma trace_rows_empty:
  "(\<And>r. r \<in> set rs \<Longrightarrow> lines_at ls r = []) \<Longrightarrow> trace_rows ls rs x = x"
  by (induction rs arbitrary: x) (simp_all add: trace_rows_Cons)

lemma lines_at_append: "lines_at (ls @ ls') r = lines_at ls r @ lines_at ls' r"
  by (simp add: lines_at_def)

lemma lines_at_single:
  "lines_at [\<lparr>fromColumn = c, row = r'\<rparr>] r = (if r' = r then [\<lparr>fromColumn = c, row = r'\<rparr>] else [])"
  by (simp add: lines_at_def)

lemma touched_lines_at: "touched ls r = (\<Union>l \<in> set (lines_at ls r). rung_columns l)"
  by (auto simp: touched_def lines_at_def)

lemma lines_at_free:
  "touched ls r \<inter> {c, c + 1} = {} \<Longrightarrow> \<forall>l \<in> set (lines_at ls r). rung_columns l \<inter> {c, c + 1} = {}"
  unfolding touched_lines_at by blast

lemma upt_split_at: "r < R \<Longrightarrow> [0..<R] = [0..<r] @ r # [Suc r..<R]"
  using upt_add_eq_append [of 0 r "R - r"] upt_conv_Cons [of r R] by simp

text \<open>A rung put on free columns of the last occupied row swaps two columns of the result.\<close>

lemma trace_rows_top_rung:
  assumes top: "\<forall>l \<in> set ls. row l \<le> r" and "r < R"
    and free: "touched ls r \<inter> {c, c + 1} = {}"
  shows "trace_rows (ls @ [\<lparr>fromColumn = c, row = r\<rparr>]) [0..<R] x
           = swap_columns c (trace_rows ls [0..<R] x)"
proof -
  let ?d = "\<lparr>fromColumn = c, row = r\<rparr>"
  let ?ls' = "ls @ [?d]"
  have below: "trace_rows ?ls' [0..<r] x = trace_rows ls [0..<r] x"
    by (rule trace_rows_cong) (simp add: lines_at_append lines_at_single)
  have above: "trace_rows ls [Suc r..<R] y = y" for y
    using top by (intro trace_rows_empty) (auto simp: lines_at_def filter_empty_conv)
  have above': "trace_rows ?ls' [Suc r..<R] y = y" for y
    using top by (intro trace_rows_empty) (auto simp: lines_at_def filter_empty_conv)
  have here: "trace_line (lines_at ?ls' r) y = swap_columns c (trace_line (lines_at ls r) y)" for y
    using trace_line_snoc_free [OF lines_at_free [OF free]]
    by (simp add: lines_at_append lines_at_single)
  show ?thesis
    unfolding upt_split_at [OF \<open>r < R\<close>] trace_rows_append trace_rows_Cons
    by (simp add: below above above' here)
qed

text \<open>A pair of rungs on the same free columns of two consecutive rows changes nothing.\<close>

lemma trace_rows_cancelling_pair:
  assumes "Suc r < R"
    and free: "touched ls r \<inter> {c, c + 1} = {}"
    and free': "touched ls (Suc r) \<inter> {c, c + 1} = {}"
  shows "trace_rows (ls @ [\<lparr>fromColumn = c, row = r\<rparr>, \<lparr>fromColumn = c, row = Suc r\<rparr>]) [0..<R] x
           = trace_rows ls [0..<R] x"
proof -
  let ?ls' = "ls @ [\<lparr>fromColumn = c, row = r\<rparr>, \<lparr>fromColumn = c, row = Suc r\<rparr>]"
  have split: "[0..<R] = [0..<r] @ r # Suc r # [Suc (Suc r)..<R]"
    using assms(1) upt_split_at [of r R] upt_conv_Cons [of "Suc r" R] by simp
  have below: "trace_rows ?ls' [0..<r] y = trace_rows ls [0..<r] y" for y
    by (rule trace_rows_cong) (simp add: lines_at_def)
  have above: "trace_rows ?ls' [Suc (Suc r)..<R] y = trace_rows ls [Suc (Suc r)..<R] y" for y
    by (rule trace_rows_cong) (simp add: lines_at_def)
  have first: "trace_line (lines_at ?ls' r) y = swap_columns c (trace_line (lines_at ls r) y)" for y
    using trace_line_snoc_free [OF lines_at_free [OF free]]
    by (simp add: lines_at_def)
  have second: "trace_line (lines_at ?ls' (Suc r)) y = trace_line (lines_at ls (Suc r)) (swap_columns c y)" for y
    using trace_line_snoc_free' [OF lines_at_free [OF free']]
    by (simp add: lines_at_def)
  show ?thesis
    unfolding split trace_rows_append trace_rows_Cons
    by (simp add: below above first second)
qed

section \<open>Decorative pairs\<close>

lemma touched_append: "touched (ls @ ls') r = touched ls r \<union> touched ls' r"
  by (auto simp: touched_def)

lemma touched_Nil [simp]: "touched [] r = {}"
  by (simp add: touched_def)

lemma touched_single:
  "touched [\<lparr>fromColumn = c, row = r'\<rparr>] r = (if r' = r then {c, c + 1} else {})"
  by (auto simp: touched_def rung_columns_def)

lemma touched_pair:
  "touched (ls @ [\<lparr>fromColumn = c, row = r\<rparr>, \<lparr>fromColumn = c, row = Suc r\<rparr>]) r'
     = touched ls r' \<union> (if r' = r \<or> r' = Suc r then {c, c + 1} else {})"
  using touched_append [of ls "[\<lparr>fromColumn = c, row = r\<rparr>, \<lparr>fromColumn = c, row = Suc r\<rparr>]" r']
    touched_append [of "[\<lparr>fromColumn = c, row = r\<rparr>]" "[\<lparr>fromColumn = c, row = Suc r\<rparr>]" r']
  by (auto simp: touched_single)

lemma add_usage_used:
  "used_or_empty (add_usage l m) r
     = used_or_empty m r \<union> (if row l = r then {fromColumn l, fromColumn l + 1} else {})"
  by (auto simp: add_usage_def used_or_empty_def)

lemma build_usage_fold:
  "used_or_empty (fold add_usage ls m) r = used_or_empty m r \<union> touched ls r"
proof (induction ls arbitrary: m)
  case Nil
  then show ?case by simp
next
  case (Cons l ls)
  have "touched (l # ls) r = touched [l] r \<union> touched ls r"
    using touched_append [of "[l]" ls r] by simp
  moreover have "touched [l] r = (if row l = r then {fromColumn l, fromColumn l + 1} else {})"
    by (auto simp: touched_def rung_columns_def)
  ultimately show ?case
    using Cons.IH [of "add_usage l m"] by (simp add: add_usage_used Un_assoc)
qed

lemma build_usage_touched: "used_or_empty (build_usage ls) r = touched ls r"
  unfolding build_usage_def build_usage_fold by (simp add: used_or_empty_def)

text \<open>
  Whatever holds of the lines and survives a cancelling pair on free columns of two
  consecutive rows below \<open>numRows\<close> holds after the filling.
\<close>

lemma fill_cols_invariant:
  assumes "usedThisRow = touched result r" and "usedNextRow = touched result (Suc r)"
    and "Q result" and "Suc r < numRows"
    and step: "\<And>ls c. Q ls \<Longrightarrow> touched ls r \<inter> {c, c + 1} = {}
                 \<Longrightarrow> touched ls (Suc r) \<inter> {c, c + 1} = {}
                 \<Longrightarrow> Q (ls @ [\<lparr>fromColumn = c, row = r\<rparr>, \<lparr>fromColumn = c, row = Suc r\<rparr>])"
    and "fold (fill_col_step coin r) cols (usedThisRow, usedNextRow, result) = (uT, uN, res)"
  shows "uT = touched res r \<and> uN = touched res (Suc r) \<and> Q res
         \<and> (\<forall>r'. r' \<noteq> r \<and> r' \<noteq> Suc r \<longrightarrow> touched res r' = touched result r')"
  using assms(1,2,3,6)
proof (induction cols arbitrary: usedThisRow usedNextRow result)
  case Nil
  then show ?case by auto
next
  case (Cons c cols)
  obtain uT' uN' res' where st: "fill_col_step coin r c (usedThisRow, usedNextRow, result) = (uT', uN', res')"
    by (cases "fill_col_step coin r c (usedThisRow, usedNextRow, result)") auto
  have inv: "uT' = touched res' r \<and> uN' = touched res' (Suc r) \<and> Q res'
             \<and> (\<forall>r'. r' \<noteq> r \<and> r' \<noteq> Suc r \<longrightarrow> touched res' r' = touched result r')"
  proof (cases "res' = result")
    case True
    with st Cons.prems show ?thesis
      by (auto simp: fill_col_step_def split: if_splits)
  next
    case False
    with st have new: "res' = result @ [\<lparr>fromColumn = c, row = r\<rparr>, \<lparr>fromColumn = c, row = Suc r\<rparr>]"
      and free: "c \<notin> usedThisRow" "c + 1 \<notin> usedThisRow" "c \<notin> usedNextRow" "c + 1 \<notin> usedNextRow"
      and u: "uT' = insert (c + 1) (insert c usedThisRow)" "uN' = insert (c + 1) (insert c usedNextRow)"
      by (auto simp: fill_col_step_def split: if_splits)
    have "Q res'" unfolding new
      using free Cons.prems(1,2,3) by (intro step) auto
    then show ?thesis
      unfolding new touched_pair u using Cons.prems(1,2) by auto
  qed
  from Cons.prems(4) st have "fold (fill_col_step coin r) cols (uT', uN', res') = (uT, uN, res)"
    by simp
  from Cons.IH [OF _ _ _ this] inv show ?case by auto
qed

lemma fill_rows_invariant:
  assumes "\<forall>r'. used_or_empty usedByRow r' = touched result r'" and "Q result"
    and step: "\<And>ls c r. Q ls \<Longrightarrow> Suc r < numRows \<Longrightarrow> touched ls r \<inter> {c, c + 1} = {}
                 \<Longrightarrow> touched ls (Suc r) \<inter> {c, c + 1} = {}
                 \<Longrightarrow> Q (ls @ [\<lparr>fromColumn = c, row = r\<rparr>, \<lparr>fromColumn = c, row = Suc r\<rparr>])"
  shows "Q (fill_rows coin numRows numColumns r (usedByRow, result))"
  using assms(1,2)
proof (induction "numRows - r" arbitrary: r usedByRow result rule: less_induct)
  case less
  show ?case
  proof (cases "r < numRows - 1")
    case False
    then show ?thesis using less.prems by (subst fill_rows.simps) simp
  next
    case True
    then have lt: "Suc r < numRows" by simp
    obtain uT uN res where f:
      "fold (fill_col_step coin r) [0..<numColumns - 1]
         (used_or_empty usedByRow r, used_or_empty usedByRow (Suc r), result) = (uT, uN, res)"
      by (metis prod_cases3)
    have inv: "uT = touched res r \<and> uN = touched res (Suc r) \<and> Q res
         \<and> (\<forall>r'. r' \<noteq> r \<and> r' \<noteq> Suc r \<longrightarrow> touched res r' = touched result r')"
    proof (rule fill_cols_invariant [where Q = Q, OF _ _ less.prems(2) lt _ f])
      show "used_or_empty usedByRow r = touched result r"
        and "used_or_empty usedByRow (Suc r) = touched result (Suc r)"
        using less.prems(1) by simp_all
      show "Q (ls @ [\<lparr>fromColumn = c, row = r\<rparr>, \<lparr>fromColumn = c, row = Suc r\<rparr>])"
        if "Q ls" "touched ls r \<inter> {c, c + 1} = {}" "touched ls (Suc r) \<inter> {c, c + 1} = {}"
        for ls c
        using step [OF that(1) lt that(2,3)] .
    qed
    have "\<forall>r'. used_or_empty (usedByRow(r \<mapsto> uT, Suc r \<mapsto> uN)) r' = touched res r'"
      using inv less.prems(1) by (auto simp: used_or_empty_def)
    moreover have "numRows - (r + 2) < numRows - r" using lt by simp
    ultimately
    have "Q (fill_rows coin numRows numColumns (r + 2) (usedByRow(r \<mapsto> uT, Suc r \<mapsto> uN), res))"
      using inv by (intro less.hyps) simp_all
    then show ?thesis using True f by (subst fill_rows.simps) simp
  qed
qed

lemma fillWithDecorativePairs_invariant:
  assumes "Q ls"
    and "\<And>ls c r. Q ls \<Longrightarrow> Suc r < numRows \<Longrightarrow> touched ls r \<inter> {c, c + 1} = {}
                 \<Longrightarrow> touched ls (Suc r) \<inter> {c, c + 1} = {}
                 \<Longrightarrow> Q (ls @ [\<lparr>fromColumn = c, row = r\<rparr>, \<lparr>fromColumn = c, row = Suc r\<rparr>])"
  shows "Q (fillWithDecorativePairs coin ls numRows numColumns)"
  unfolding fillWithDecorativePairs_def
proof (rule fill_rows_invariant [where Q = Q])
  show "\<forall>r'. used_or_empty (build_usage ls) r' = touched ls r'"
    by (simp add: build_usage_touched)
qed (use assms in blast)+

lemma fill_preserves_trace:
  "trace_rows (fillWithDecorativePairs coin ls numRows numColumns) [0..<numRows] x
     = trace_rows ls [0..<numRows] x"
  by (rule fillWithDecorativePairs_invariant
        [where Q = "\<lambda>ls'. trace_rows ls' [0..<numRows] x = trace_rows ls [0..<numRows] x"])
     (simp_all add: trace_rows_cancelling_pair)

text \<open>
  C4. For every rung list, every \<open>numRows\<close> and every \<open>numColumns\<close>, the mapping that
  \<open>calculateMapping\<close> traces after \<open>fillWithDecorativePairs\<close> equals the mapping it traces
  before the filling, whatever the random tests of the filling give: the cancelling pairs
  never alter the traced mapping.
\<close>

theorem fill_neutral:
  "calculateMapping numColumns numRows (fillWithDecorativePairs coin ls numRows numColumns)
     = calculateMapping numColumns numRows ls"
  unfolding calculateMapping_closed fill_preserves_trace ..

theorem fill_neutral_witness:
  "fillWithDecorativePairs (\<lambda>r c. True) [\<lparr>fromColumn = 0, row = 1\<rparr>] 5 4
    = [\<lparr>fromColumn = 0, row = 1\<rparr>, \<lparr>fromColumn = 2, row = 1\<rparr>, \<lparr>fromColumn = 2, row = 2\<rparr>,
       \<lparr>fromColumn = 0, row = 3\<rparr>, \<lparr>fromColumn = 0, row = 4\<rparr>, \<lparr>fromColumn = 2, row = 3\<rparr>,
       \<lparr>fromColumn = 2, row = 4\<rparr>]
   \<and> calculateMapping 4 5
       [\<lparr>fromColumn = 0, row = 1\<rparr>, \<lparr>fromColumn = 2, row = 1\<rparr>, \<lparr>fromColumn = 2, row = 2\<rparr>,
        \<lparr>fromColumn = 0, row = 3\<rparr>, \<lparr>fromColumn = 0, row = 4\<rparr>, \<lparr>fromColumn = 2, row = 3\<rparr>,
        \<lparr>fromColumn = 2, row = 4\<rparr>]
     = calculateMapping 4 5 [\<lparr>fromColumn = 0, row = 1\<rparr>]"
proof -
  have ev: "fillWithDecorativePairs (\<lambda>r c. True) [\<lparr>fromColumn = 0, row = 1\<rparr>] 5 4
    = [\<lparr>fromColumn = 0, row = 1\<rparr>, \<lparr>fromColumn = 2, row = 1\<rparr>, \<lparr>fromColumn = 2, row = 2\<rparr>,
       \<lparr>fromColumn = 0, row = 3\<rparr>, \<lparr>fromColumn = 0, row = 4\<rparr>, \<lparr>fromColumn = 2, row = 3\<rparr>,
       \<lparr>fromColumn = 2, row = 4\<rparr>]"
    by code_simp
  show ?thesis
    using fill_neutral [of 4 5 "\<lambda>r c. True" "[\<lparr>fromColumn = 0, row = 1\<rparr>]"] ev by simp
qed

section \<open>Placing the adjustment rungs\<close>

lemma adjustment_invariant_used:
  "adjustment_invariant startRow adj usedRows minRowIdx \<Longrightarrow> i < length usedRows
     \<Longrightarrow> usedRows ! i = touched adj (startRow + i)"
  by (simp add: adjustment_invariant_def)

lemma adjustment_invariant_rows:
  "adjustment_invariant startRow adj usedRows minRowIdx \<Longrightarrow> l \<in> set adj
     \<Longrightarrow> startRow \<le> row l \<and> row l \<le> startRow + minRowIdx \<and> row l < startRow + length usedRows"
  by (simp add: adjustment_invariant_def)

lemma find_row_Some:
  "find_row usedRows col i = Some k \<Longrightarrow>
     i \<le> k \<and> k < length usedRows \<and> col \<notin> usedRows ! k \<and> col + 1 \<notin> usedRows ! k"
proof (induction "length usedRows - i" arbitrary: i rule: less_induct)
  case less
  note unfold = find_row.simps [of usedRows col i]
  from less.prems have lt: "i < length usedRows"
    unfolding unfold by (simp split: if_splits)
  show ?case
  proof (cases "col \<notin> usedRows ! i \<and> col + 1 \<notin> usedRows ! i")
    case True
    with less.prems lt show ?thesis
      unfolding unfold by auto
  next
    case False
    with less.prems lt have "find_row usedRows col (i + 1) = Some k"
      unfolding unfold by auto
    moreover have "length usedRows - (i + 1) < length usedRows - i" using lt by simp
    ultimately have "i + 1 \<le> k \<and> k < length usedRows \<and> col \<notin> usedRows ! k \<and> col + 1 \<notin> usedRows ! k"
      using less.hyps by blast
    then show ?thesis by simp
  qed
qed

text \<open>One placement: the new rung goes on free columns of a row that is not below any
  adjustment row used so far.\<close>

lemma place_adjustment_step:
  assumes inv: "adjustment_invariant startRow adj usedRows minRowIdx"
  obtains r usedRows' minRowIdx' where
    "place_adjustment startRow c (ls @ adj, usedRows, minRowIdx)
       = (ls @ adj @ [\<lparr>fromColumn = c, row = r\<rparr>], usedRows', minRowIdx')"
    and "adjustment_invariant startRow (adj @ [\<lparr>fromColumn = c, row = r\<rparr>]) usedRows' minRowIdx'"
    and "\<forall>l \<in> set adj. row l \<le> r" and "startRow \<le> r"
    and "touched adj r \<inter> {c, c + 1} = {}"
    and "length usedRows \<le> length usedRows'"
proof (cases "find_row usedRows c minRowIdx")
  case None
  let ?r = "startRow + length usedRows"
  let ?d = "\<lparr>fromColumn = c, row = ?r\<rparr>"
  have below: "row l < ?r" if "l \<in> set adj" for l
    using adjustment_invariant_rows [OF inv that] by simp
  have empty: "touched adj ?r = {}"
    using below by (fastforce simp: touched_def)
  have "place_adjustment startRow c (ls @ adj, usedRows, minRowIdx)
          = (ls @ adj @ [?d], usedRows @ [{c, c + 1}], length usedRows)"
    using None by (simp add: place_adjustment_def Let_def)
  moreover have "adjustment_invariant startRow (adj @ [?d]) (usedRows @ [{c, c + 1}]) (length usedRows)"
    unfolding adjustment_invariant_def
  proof (intro conjI allI impI ballI)
    fix i assume "i < length (usedRows @ [{c, c + 1}])"
    then consider "i < length usedRows" | "i = length usedRows" by fastforce
    then show "(usedRows @ [{c, c + 1}]) ! i = touched (adj @ [?d]) (startRow + i)"
    proof cases
      case 1
      then show ?thesis
        using adjustment_invariant_used [OF inv 1]
        by (simp add: touched_append touched_single nth_append)
    next
      case 2
      then show ?thesis
        using empty by (simp add: touched_append touched_single nth_append)
    qed
  next
    fix l assume "l \<in> set (adj @ [?d])"
    then consider "l \<in> set adj" | "l = ?d" by auto
    then have "startRow \<le> row l \<and> row l \<le> startRow + length usedRows"
    proof cases
      case 1
      with adjustment_invariant_rows [OF inv]
      have "startRow \<le> row l \<and> row l < startRow + length usedRows"
        by simp
      then show ?thesis by simp
    next
      case 2
      then show ?thesis by simp
    qed
    then show "startRow \<le> row l" "row l \<le> startRow + length usedRows"
      "row l < startRow + length (usedRows @ [{c, c + 1}])"
      by simp_all
  qed
  moreover have "\<forall>l \<in> set adj. row l \<le> ?r"
    using below by (simp add: less_imp_le)
  ultimately show ?thesis
    using empty by (intro that [of ?r "usedRows @ [{c, c + 1}]" "length usedRows"]) simp_all
next
  case (Some k)
  from find_row_Some [OF this]
  have k: "minRowIdx \<le> k" "k < length usedRows" "c \<notin> usedRows ! k" "c + 1 \<notin> usedRows ! k"
    by simp_all
  let ?r = "startRow + k"
  let ?d = "\<lparr>fromColumn = c, row = ?r\<rparr>"
  let ?u = "usedRows[k := insert (c + 1) (insert c (usedRows ! k))]"
  have used: "usedRows ! k = touched adj ?r"
    using adjustment_invariant_used [OF inv k(2)] .
  have "place_adjustment startRow c (ls @ adj, usedRows, minRowIdx) = (ls @ adj @ [?d], ?u, k)"
    using Some by (simp add: place_adjustment_def)
  moreover have "adjustment_invariant startRow (adj @ [?d]) ?u k"
    unfolding adjustment_invariant_def
  proof (intro conjI allI impI ballI)
    fix i assume "i < length ?u"
    then have i: "i < length usedRows" by simp
    show "?u ! i = touched (adj @ [?d]) (startRow + i)"
      using adjustment_invariant_used [OF inv i] i
      by (auto simp: touched_append touched_single nth_list_update)
  next
    fix l assume "l \<in> set (adj @ [?d])"
    then consider "l \<in> set adj" | "l = ?d" by auto
    then have "startRow \<le> row l \<and> row l \<le> startRow + k \<and> row l < startRow + length usedRows"
    proof cases
      case 1
      with adjustment_invariant_rows [OF inv]
      have "startRow \<le> row l \<and> row l \<le> startRow + minRowIdx
          \<and> row l < startRow + length usedRows"
        by simp
      then show ?thesis using k(1) by simp
    next
      case 2
      then show ?thesis using k(2) by simp
    qed
    then show "startRow \<le> row l" "row l \<le> startRow + k" "row l < startRow + length ?u"
      by simp_all
  qed
  moreover have "\<forall>l \<in> set adj. row l \<le> ?r"
  proof
    fix l assume "l \<in> set adj"
    from adjustment_invariant_rows [OF inv this] k(1) show "row l \<le> ?r" by simp
  qed
  moreover have "touched adj ?r \<inter> {c, c + 1} = {}"
    using used k(3,4) by auto
  ultimately show ?thesis
    by (intro that [of ?r ?u k]) simp_all
qed


text \<open>
  The loop over the transpositions appends one rung per transposition, in their order.
  A property of the appended rungs that survives each placement holds at the end.
\<close>

lemma place_fold_invariant:
  assumes "adjustment_invariant startRow adj usedRows minRowIdx" and "Q adj"
    and step: "\<And>adj c r. Q adj \<Longrightarrow> \<forall>l \<in> set adj. startRow \<le> row l \<and> row l \<le> r \<Longrightarrow> startRow \<le> r
                 \<Longrightarrow> touched adj r \<inter> {c, c + 1} = {} \<Longrightarrow> Q (adj @ [\<lparr>fromColumn = c, row = r\<rparr>])"
  shows "\<exists>adj' usedRows' minRowIdx'.
           fold (place_adjustment startRow) ts (ls @ adj, usedRows, minRowIdx)
             = (ls @ adj @ adj', usedRows', minRowIdx')
           \<and> map fromColumn adj' = ts
           \<and> adjustment_invariant startRow (adj @ adj') usedRows' minRowIdx'
           \<and> Q (adj @ adj')
           \<and> length usedRows \<le> length usedRows'"
  using assms(1,2)
proof (induction ts arbitrary: adj usedRows minRowIdx)
  case Nil
  then show ?case by simp
next
  case (Cons c ts)
  from place_adjustment_step [OF Cons.prems(1), of c ls]
  obtain r u m where
    st: "place_adjustment startRow c (ls @ adj, usedRows, minRowIdx)
       = (ls @ adj @ [\<lparr>fromColumn = c, row = r\<rparr>], u, m)"
    and inv: "adjustment_invariant startRow (adj @ [\<lparr>fromColumn = c, row = r\<rparr>]) u m"
    and top: "\<forall>l \<in> set adj. row l \<le> r" and low: "startRow \<le> r"
    and free: "touched adj r \<inter> {c, c + 1} = {}"
    and len: "length usedRows \<le> length u"
    by blast
  have "\<forall>l \<in> set adj. startRow \<le> row l \<and> row l \<le> r"
    using top adjustment_invariant_rows [OF Cons.prems(1)] by blast
  then have q: "Q (adj @ [\<lparr>fromColumn = c, row = r\<rparr>])"
    using Cons.prems(2) low free by (intro step)
  from Cons.IH [OF inv q]
  obtain adj' u' m' where
    "fold (place_adjustment startRow) ts (ls @ (adj @ [\<lparr>fromColumn = c, row = r\<rparr>]), u, m)
       = (ls @ (adj @ [\<lparr>fromColumn = c, row = r\<rparr>]) @ adj', u', m')"
    "map fromColumn adj' = ts"
    "adjustment_invariant startRow ((adj @ [\<lparr>fromColumn = c, row = r\<rparr>]) @ adj') u' m'"
    "Q ((adj @ [\<lparr>fromColumn = c, row = r\<rparr>]) @ adj')"
    "length u \<le> length u'"
    by blast
  then show ?case
    using st len
    by (intro exI [of _ "\<lparr>fromColumn = c, row = r\<rparr> # adj'"] exI [of _ u'] exI [of _ m']) simp
qed

lemma adjustment_invariant_empty: "adjustment_invariant startRow [] [] 0"
  by (simp add: adjustment_invariant_def)

lemma addAdjustmentLines_invariant:
  assumes "Q []"
    and "\<And>adj c r. Q adj \<Longrightarrow> \<forall>l \<in> set adj. startRow \<le> row l \<and> row l \<le> r \<Longrightarrow> startRow \<le> r
           \<Longrightarrow> touched adj r \<inter> {c, c + 1} = {} \<Longrightarrow> Q (adj @ [\<lparr>fromColumn = c, row = r\<rparr>])"
  obtains adj where
    "fst (addAdjustmentLines ls ts startRow numColumns) = ls @ adj"
    and "map fromColumn adj = ts" and "Q adj"
    and "\<forall>l \<in> set adj. startRow \<le> row l
            \<and> row l < snd (addAdjustmentLines ls ts startRow numColumns)"
    and "startRow < snd (addAdjustmentLines ls ts startRow numColumns)"
proof -
  have "\<exists>adj' usedRows' minRowIdx'.
           fold (place_adjustment startRow) ts (ls @ [], [], 0)
             = (ls @ [] @ adj', usedRows', minRowIdx')
           \<and> map fromColumn adj' = ts
           \<and> adjustment_invariant startRow ([] @ adj') usedRows' minRowIdx'
           \<and> Q ([] @ adj')
           \<and> length ([] :: nat set list) \<le> length usedRows'"
  proof (rule place_fold_invariant [where Q = Q, OF adjustment_invariant_empty assms(1)])
    show "Q (adj @ [\<lparr>fromColumn = c, row = r\<rparr>])"
      if "Q adj" "\<forall>l \<in> set adj. startRow \<le> row l \<and> row l \<le> r" "startRow \<le> r"
        "touched adj r \<inter> {c, c + 1} = {}" for adj c r
      using assms(2) [OF that] .
  qed
  then obtain adj u m where
    f: "fold (place_adjustment startRow) ts (ls, [], 0) = (ls @ adj, u, m)"
    and "map fromColumn adj = ts" and inv: "adjustment_invariant startRow adj u m" and "Q adj"
    by auto
  have res: "addAdjustmentLines ls ts startRow numColumns = (ls @ adj, startRow + max 1 (length u))"
    by (simp add: addAdjustmentLines_def f)
  have "\<forall>l \<in> set adj. startRow \<le> row l \<and> row l < startRow + max 1 (length u)"
    using adjustment_invariant_rows [OF inv] by fastforce
  then show ?thesis
    using \<open>map fromColumn adj = ts\<close> \<open>Q adj\<close> res by (intro that [of adj]) simp_all
qed

text \<open>
  C6. For every transposition list and starting row, \<open>addAdjustmentLines\<close> appends one rung
  per transposition, in the order of the list, and the rows of these rungs never decrease:
  when transposition \<open>i\<close> precedes transposition \<open>j\<close>, the rung placed for \<open>i\<close> is in a row
  less than or equal to the row of the rung placed for \<open>j\<close>.
\<close>

theorem addAdjustmentLines_row_order:
  "\<exists>adj. fst (addAdjustmentLines ls ts startRow numColumns) = ls @ adj
     \<and> map fromColumn adj = ts
     \<and> (\<forall>i j. i \<le> j \<and> j < length ts \<longrightarrow> row (adj ! i) \<le> row (adj ! j))"
proof -
  obtain adj where adj: "fst (addAdjustmentLines ls ts startRow numColumns) = ls @ adj"
    "map fromColumn adj = ts" "sorted (map row adj)"
  proof (rule addAdjustmentLines_invariant [where Q = "\<lambda>adj. sorted (map row adj)"
        and ls = ls and ts = ts and startRow = startRow and numColumns = numColumns])
    show "sorted (map row [])" by simp
    show "sorted (map row (adj @ [\<lparr>fromColumn = c, row = r\<rparr>]))"
      if "sorted (map row adj)" "\<forall>l \<in> set adj. startRow \<le> row l \<and> row l \<le> r" for adj c r
      using that by (simp add: sorted_append)
  qed blast
  have len: "length adj = length ts" using adj(2) by (metis length_map)
  have "row (adj ! i) \<le> row (adj ! j)" if "i \<le> j" "j < length ts" for i j
    using sorted_nth_mono [OF adj(3), of i j] that len by simp
  with adj(1,2) show ?thesis by blast
qed

theorem addAdjustmentLines_row_order_witness:
  "fst (addAdjustmentLines [] [1, 0, 2] 6 4)
     = [\<lparr>fromColumn = 1, row = 6\<rparr>, \<lparr>fromColumn = 0, row = 7\<rparr>, \<lparr>fromColumn = 2, row = 7\<rparr>]
   \<and> (0::nat) \<le> 2 \<and> (2::nat) < length [1, 0, 2 :: nat]
   \<and> row ([\<lparr>fromColumn = 1, row = 6\<rparr>, \<lparr>fromColumn = 0, row = 7\<rparr>, \<lparr>fromColumn = 2, row = 7\<rparr>] ! 0)
       \<le> row ([\<lparr>fromColumn = 1, row = 6\<rparr>, \<lparr>fromColumn = 0, row = 7\<rparr>, \<lparr>fromColumn = 2, row = 7\<rparr>] ! 2)"
proof -
  have ev: "fst (addAdjustmentLines [] [1, 0, 2] 6 4)
     = [\<lparr>fromColumn = 1, row = 6\<rparr>, \<lparr>fromColumn = 0, row = 7\<rparr>, \<lparr>fromColumn = 2, row = 7\<rparr>]"
    by code_simp
  from addAdjustmentLines_row_order [of "[]" "[1, 0, 2]" 6 4]
  obtain adj where adj: "fst (addAdjustmentLines [] [1, 0, 2] 6 4) = [] @ adj"
    and ord: "\<forall>i j. i \<le> j \<and> j < length [1, 0, 2 :: nat] \<longrightarrow> row (adj ! i) \<le> row (adj ! j)"
    by blast
  have "(0::nat) \<le> 2 \<and> (2::nat) < length [1, 0, 2 :: nat]" by simp
  with ord have "row (adj ! 0) \<le> row (adj ! 2)" by blast
  moreover have "adj = [\<lparr>fromColumn = 1, row = 6\<rparr>, \<lparr>fromColumn = 0, row = 7\<rparr>, \<lparr>fromColumn = 2, row = 7\<rparr>]"
    using adj ev by simp
  ultimately show ?thesis using ev by simp
qed

section \<open>Rows without overlap\<close>

lemma no_overlap_Nil [simp]: "no_overlap []"
  by (simp add: no_overlap_def)

lemma rung_columns_touched: "l \<in> set ls \<Longrightarrow> rung_columns l \<subseteq> touched ls (row l)"
  by (auto simp: touched_def)

lemma no_overlap_snoc:
  assumes "no_overlap ls" and free: "touched ls r \<inter> {c, c + 1} = {}"
  shows "no_overlap (ls @ [\<lparr>fromColumn = c, row = r\<rparr>])"
proof -
  let ?d = "\<lparr>fromColumn = c, row = r\<rparr>"
  have disj: "rung_columns a \<inter> rung_columns ?d = {}" if "a \<in> set ls" "row a = r" for a
    using rung_columns_touched [OF that(1)] that(2) free by (auto simp: rung_columns_def)
  have "?d \<notin> set ls"
  proof
    assume "?d \<in> set ls"
    from disj [OF this] show False by (simp add: rung_columns_def)
  qed
  then show ?thesis
    using assms(1) disj unfolding no_overlap_def by (auto simp: Int_commute)
qed

lemma no_overlap_pair:
  assumes "no_overlap ls" and "touched ls r \<inter> {c, c + 1} = {}"
    and "touched ls (Suc r) \<inter> {c, c + 1} = {}"
  shows "no_overlap (ls @ [\<lparr>fromColumn = c, row = r\<rparr>, \<lparr>fromColumn = c, row = Suc r\<rparr>])"
proof -
  have "no_overlap ((ls @ [\<lparr>fromColumn = c, row = r\<rparr>]) @ [\<lparr>fromColumn = c, row = Suc r\<rparr>])"
    using assms by (intro no_overlap_snoc) (simp_all add: touched_append touched_single)
  then show ?thesis by simp
qed

lemma fill_no_overlap:
  "no_overlap ls \<Longrightarrow> no_overlap (fillWithDecorativePairs coin ls numRows numColumns)"
  by (rule fillWithDecorativePairs_invariant [where Q = no_overlap]) (simp_all add: no_overlap_pair)

lemma sort_no_overlap: "no_overlap ls \<Longrightarrow> no_overlap (sort_key k ls)"
  by (simp add: no_overlap_def)

text \<open>The natural rungs\<close>

lemma lines_col_fold_no_overlap:
  assumes "used = touched ls r" and "no_overlap ls" and "\<forall>l \<in> set ls. fromColumn l + 1 < n"
    and "\<forall>c \<in> set cols. c + 1 < n"
    and "fold (lines_col_step coin r) cols (used, ls) = (used', ls')"
  shows "no_overlap ls' \<and> (\<forall>l \<in> set ls'. fromColumn l + 1 < n)"
  using assms
proof (induction cols arbitrary: used ls)
  case Nil
  then show ?case by simp
next
  case (Cons c cols)
  obtain u1 l1 where st: "lines_col_step coin r c (used, ls) = (u1, l1)"
    by (cases "lines_col_step coin r c (used, ls)") auto
  have "u1 = touched l1 r \<and> no_overlap l1 \<and> (\<forall>l \<in> set l1. fromColumn l + 1 < n)"
  proof (cases "l1 = ls")
    case True
    with st Cons.prems show ?thesis by (auto simp: lines_col_step_def split: if_splits)
  next
    case False
    with st have new: "l1 = ls @ [\<lparr>fromColumn = c, row = r\<rparr>]"
      and free: "c \<notin> used" "c + 1 \<notin> used"
      and u: "u1 = insert (c + 1) (insert c used)"
      by (auto simp: lines_col_step_def split: if_splits)
    have "no_overlap l1" unfolding new
      using free Cons.prems(1,2) by (intro no_overlap_snoc) auto
    then show ?thesis
      unfolding new u using Cons.prems(1,3,4) by (auto simp: touched_append touched_single)
  qed
  moreover from Cons.prems(5) st have "fold (lines_col_step coin r) cols (u1, l1) = (used', ls')"
    by simp
  ultimately show ?case using Cons.IH [of u1 l1] Cons.prems(4) by simp
qed

lemma lines_row_step_no_overlap:
  assumes "no_overlap ls" and "\<forall>l \<in> set ls. fromColumn l + 1 < n" and "\<forall>l \<in> set ls. row l < r"
  shows "no_overlap (lines_row_step coin n r ls)
         \<and> (\<forall>l \<in> set (lines_row_step coin n r ls). fromColumn l + 1 < n)"
proof -
  have empty: "{} = touched ls r" using assms(3) by (fastforce simp: touched_def)
  obtain u' ls' where f: "fold (lines_col_step coin r) [0..<n - 1] ({}, ls) = (u', ls')"
    by (cases "fold (lines_col_step coin r) [0..<n - 1] ({}, ls)") auto
  have "\<forall>c \<in> set [0..<n - 1]. c + 1 < n" by auto
  from lines_col_fold_no_overlap [OF empty assms(1,2) this f] show ?thesis
    unfolding lines_row_step_def f by simp
qed

lemma generateRandomLines_Suc:
  "generateRandomLines coin n (Suc b)
     = (if 1 \<le> b then lines_row_step coin n b (generateRandomLines coin n b) else [])"
  by (simp add: generateRandomLines_def)

lemma generateRandomLines_no_overlap:
  "no_overlap (generateRandomLines coin n numRows)
   \<and> (\<forall>l \<in> set (generateRandomLines coin n numRows). fromColumn l + 1 < n)"
proof (induction numRows)
  case 0
  then show ?case by (simp add: generateRandomLines_def)
next
  case (Suc b)
  show ?case
  proof (cases "1 \<le> b")
    case True
    have "\<forall>l \<in> set (generateRandomLines coin n b). row l < b"
      using generateRandomLines_rows by blast
    from lines_row_step_no_overlap [OF _ _ this, of n coin] Suc.IH True show ?thesis
      by (simp add: generateRandomLines_Suc)
  next
    case False
    then show ?thesis by (simp add: generateRandomLines_Suc)
  qed
qed

text \<open>The adjustment rungs\<close>

lemma addAdjustmentLines_no_overlap:
  assumes "no_overlap ls" and "\<forall>l \<in> set ls. row l < startRow"
  shows "no_overlap (fst (addAdjustmentLines ls ts startRow numColumns))"
proof -
  obtain adj where "fst (addAdjustmentLines ls ts startRow numColumns) = ls @ adj"
    and "no_overlap (ls @ adj)"
  proof (rule addAdjustmentLines_invariant [where Q = "\<lambda>adj. no_overlap (ls @ adj)"
        and ls = ls and ts = ts and startRow = startRow and numColumns = numColumns])
    show "no_overlap (ls @ [])" using assms(1) by simp
    show "no_overlap (ls @ adj @ [\<lparr>fromColumn = c, row = r\<rparr>])"
      if "no_overlap (ls @ adj)" "startRow \<le> r" "touched adj r \<inter> {c, c + 1} = {}" for adj c r
    proof -
      have "touched ls r = {}" using assms(2) that(2) by (fastforce simp: touched_def)
      then have "touched (ls @ adj) r \<inter> {c, c + 1} = {}"
        using that(3) by (simp add: touched_append)
      from no_overlap_snoc [OF that(1) this] show ?thesis by simp
    qed
  qed blast
  then show ?thesis by simp
qed

section \<open>The generated rung set\<close>

lemma no_overlap_nth:
  assumes "no_overlap ls" and "i < length ls" and "j < length ls" and "i \<noteq> j"
    and "row (ls ! i) = row (ls ! j)"
  shows "{fromColumn (ls ! i), fromColumn (ls ! i) + 1}
           \<inter> {fromColumn (ls ! j), fromColumn (ls ! j) + 1} = {}"
proof -
  have "ls ! i \<noteq> ls ! j"
    using assms(1-4) by (simp add: no_overlap_def nth_eq_iff_index_eq)
  moreover have "ls ! i \<in> set ls" "ls ! j \<in> set ls" using assms(2,3) by simp_all
  ultimately have "rung_columns (ls ! i) \<inter> rung_columns (ls ! j) = {}"
    using assms(1,5) unfolding no_overlap_def by blast
  then show ?thesis by (simp add: rung_columns_def)
qed

lemma generate_lines_no_overlap: "no_overlap (horizontalLines (generate coinLines rnd coinFill ps rs))"
proof -
  define n where "n = length ps"
  define baseRows where "baseRows = max MIN_ROWS (min MAX_ROWS (n * ROWS_PER_PARTICIPANT))"
  define natural where "natural = generateRandomLines coinLines n baseRows"
  define adjustments where "adjustments = calculateAdjustmentTranspositions
      (calculateMapping n baseRows natural) (generateRandomMapping rnd n) n"
  obtain finalLines numRows where
    adj: "addAdjustmentLines natural adjustments baseRows n = (finalLines, numRows)"
    by (cases "addAdjustmentLines natural adjustments baseRows n") auto
  have lines: "horizontalLines (generate coinLines rnd coinFill ps rs)
      = sort_key (\<lambda>l. (row l, fromColumn l))
          (fillWithDecorativePairs coinFill finalLines (numRows + 1) n)"
    using adj
    by (simp add: generate_def Let_def n_def [symmetric] baseRows_def [symmetric]
        natural_def [symmetric] adjustments_def [symmetric])
  have "no_overlap natural"
    unfolding natural_def using generateRandomLines_no_overlap by blast
  moreover have "\<forall>l \<in> set natural. row l < baseRows"
    unfolding natural_def using generateRandomLines_rows by blast
  ultimately have "no_overlap finalLines"
    using addAdjustmentLines_no_overlap [of natural baseRows adjustments n] adj by simp
  then show ?thesis
    unfolding lines by (intro sort_no_overlap fill_no_overlap)
qed

text \<open>
  C5. In every rung set returned by \<open>generate\<close> (natural, adjustment and decorative rungs
  together), two distinct rungs of the same row touch disjoint column sets
  \<open>{fromColumn, fromColumn + 1}\<close>: no column is touched by two rungs of one row.
\<close>

theorem generate_row_non_overlap:
  "\<forall>i j. i < length (horizontalLines (generate coinLines rnd coinFill ps rs))
       \<and> j < length (horizontalLines (generate coinLines rnd coinFill ps rs))
       \<and> i \<noteq> j
       \<and> row (horizontalLines (generate coinLines rnd coinFill ps rs) ! i)
           = row (horizontalLines (generate coinLines rnd coinFill ps rs) ! j)
     \<longrightarrow> {fromColumn (horizontalLines (generate coinLines rnd coinFill ps rs) ! i),
          fromColumn (horizontalLines (generate coinLines rnd coinFill ps rs) ! i) + 1}
         \<inter> {fromColumn (horizontalLines (generate coinLines rnd coinFill ps rs) ! j),
            fromColumn (horizontalLines (generate coinLines rnd coinFill ps rs) ! j) + 1} = {}"
  using no_overlap_nth [OF generate_lines_no_overlap] by blast

theorem generate_row_non_overlap_witness:
  "horizontalLines (generate (\<lambda>r c. r = 1) (\<lambda>i. i) (\<lambda>r c. r = 3)
       [''A'', ''B'', ''C'', ''D''] [''W'', ''X'', ''Y'', ''Z''])
     = [\<lparr>fromColumn = 0, row = 1\<rparr>, \<lparr>fromColumn = 2, row = 1\<rparr>,
        \<lparr>fromColumn = 0, row = 3\<rparr>, \<lparr>fromColumn = 2, row = 3\<rparr>,
        \<lparr>fromColumn = 0, row = 4\<rparr>, \<lparr>fromColumn = 2, row = 4\<rparr>,
        \<lparr>fromColumn = 0, row = 12\<rparr>, \<lparr>fromColumn = 2, row = 12\<rparr>]
   \<and> row ([\<lparr>fromColumn = 0, row = 1\<rparr>, \<lparr>fromColumn = 2, row = 1\<rparr>,
        \<lparr>fromColumn = 0, row = 3\<rparr>, \<lparr>fromColumn = 2, row = 3\<rparr>,
        \<lparr>fromColumn = 0, row = 4\<rparr>, \<lparr>fromColumn = 2, row = 4\<rparr>,
        \<lparr>fromColumn = 0, row = 12\<rparr>, \<lparr>fromColumn = 2, row = 12\<rparr>] ! 6) = row ([\<lparr>fromColumn = 0, row = 1\<rparr>, \<lparr>fromColumn = 2, row = 1\<rparr>,
        \<lparr>fromColumn = 0, row = 3\<rparr>, \<lparr>fromColumn = 2, row = 3\<rparr>,
        \<lparr>fromColumn = 0, row = 4\<rparr>, \<lparr>fromColumn = 2, row = 4\<rparr>,
        \<lparr>fromColumn = 0, row = 12\<rparr>, \<lparr>fromColumn = 2, row = 12\<rparr>] ! 7)
   \<and> {fromColumn ([\<lparr>fromColumn = 0, row = 1\<rparr>, \<lparr>fromColumn = 2, row = 1\<rparr>,
        \<lparr>fromColumn = 0, row = 3\<rparr>, \<lparr>fromColumn = 2, row = 3\<rparr>,
        \<lparr>fromColumn = 0, row = 4\<rparr>, \<lparr>fromColumn = 2, row = 4\<rparr>,
        \<lparr>fromColumn = 0, row = 12\<rparr>, \<lparr>fromColumn = 2, row = 12\<rparr>] ! 6), fromColumn ([\<lparr>fromColumn = 0, row = 1\<rparr>, \<lparr>fromColumn = 2, row = 1\<rparr>,
        \<lparr>fromColumn = 0, row = 3\<rparr>, \<lparr>fromColumn = 2, row = 3\<rparr>,
        \<lparr>fromColumn = 0, row = 4\<rparr>, \<lparr>fromColumn = 2, row = 4\<rparr>,
        \<lparr>fromColumn = 0, row = 12\<rparr>, \<lparr>fromColumn = 2, row = 12\<rparr>] ! 6) + 1}
       \<inter> {fromColumn ([\<lparr>fromColumn = 0, row = 1\<rparr>, \<lparr>fromColumn = 2, row = 1\<rparr>,
        \<lparr>fromColumn = 0, row = 3\<rparr>, \<lparr>fromColumn = 2, row = 3\<rparr>,
        \<lparr>fromColumn = 0, row = 4\<rparr>, \<lparr>fromColumn = 2, row = 4\<rparr>,
        \<lparr>fromColumn = 0, row = 12\<rparr>, \<lparr>fromColumn = 2, row = 12\<rparr>] ! 7), fromColumn ([\<lparr>fromColumn = 0, row = 1\<rparr>, \<lparr>fromColumn = 2, row = 1\<rparr>,
        \<lparr>fromColumn = 0, row = 3\<rparr>, \<lparr>fromColumn = 2, row = 3\<rparr>,
        \<lparr>fromColumn = 0, row = 4\<rparr>, \<lparr>fromColumn = 2, row = 4\<rparr>,
        \<lparr>fromColumn = 0, row = 12\<rparr>, \<lparr>fromColumn = 2, row = 12\<rparr>] ! 7) + 1} = {}"
proof -
  have ev: "horizontalLines (generate (\<lambda>r c. r = 1) (\<lambda>i. i) (\<lambda>r c. r = 3)
       [''A'', ''B'', ''C'', ''D''] [''W'', ''X'', ''Y'', ''Z''])
     = [\<lparr>fromColumn = 0, row = 1\<rparr>, \<lparr>fromColumn = 2, row = 1\<rparr>,
        \<lparr>fromColumn = 0, row = 3\<rparr>, \<lparr>fromColumn = 2, row = 3\<rparr>,
        \<lparr>fromColumn = 0, row = 4\<rparr>, \<lparr>fromColumn = 2, row = 4\<rparr>,
        \<lparr>fromColumn = 0, row = 12\<rparr>, \<lparr>fromColumn = 2, row = 12\<rparr>]"
    by code_simp
  have "(6::nat) < length (horizontalLines (generate (\<lambda>r c. r = 1) (\<lambda>i. i) (\<lambda>r c. r = 3)
       [''A'', ''B'', ''C'', ''D''] [''W'', ''X'', ''Y'', ''Z''])) \<and> (7::nat) < length (horizontalLines (generate (\<lambda>r c. r = 1) (\<lambda>i. i) (\<lambda>r c. r = 3)
       [''A'', ''B'', ''C'', ''D''] [''W'', ''X'', ''Y'', ''Z''])) \<and> (6::nat) \<noteq> 7
      \<and> row (horizontalLines (generate (\<lambda>r c. r = 1) (\<lambda>i. i) (\<lambda>r c. r = 3)
       [''A'', ''B'', ''C'', ''D''] [''W'', ''X'', ''Y'', ''Z'']) ! 6) = row (horizontalLines (generate (\<lambda>r c. r = 1) (\<lambda>i. i) (\<lambda>r c. r = 3)
       [''A'', ''B'', ''C'', ''D''] [''W'', ''X'', ''Y'', ''Z'']) ! 7)"
    unfolding ev by simp
  with generate_row_non_overlap [of "\<lambda>r c. r = 1" "\<lambda>i. i" "\<lambda>r c. r = 3"
      "[''A'', ''B'', ''C'', ''D'']" "[''W'', ''X'', ''Y'', ''Z'']"]
  have "{fromColumn (horizontalLines (generate (\<lambda>r c. r = 1) (\<lambda>i. i) (\<lambda>r c. r = 3)
       [''A'', ''B'', ''C'', ''D''] [''W'', ''X'', ''Y'', ''Z'']) ! 6), fromColumn (horizontalLines (generate (\<lambda>r c. r = 1) (\<lambda>i. i) (\<lambda>r c. r = 3)
       [''A'', ''B'', ''C'', ''D''] [''W'', ''X'', ''Y'', ''Z'']) ! 6) + 1}
       \<inter> {fromColumn (horizontalLines (generate (\<lambda>r c. r = 1) (\<lambda>i. i) (\<lambda>r c. r = 3)
       [''A'', ''B'', ''C'', ''D''] [''W'', ''X'', ''Y'', ''Z'']) ! 7), fromColumn (horizontalLines (generate (\<lambda>r c. r = 1) (\<lambda>i. i) (\<lambda>r c. r = 3)
       [''A'', ''B'', ''C'', ''D''] [''W'', ''X'', ''Y'', ''Z'']) ! 7) + 1} = {}"
    by blast
  then show ?thesis unfolding ev by simp
qed

section \<open>The shuffle\<close>

lemma swap_elems_length [simp]: "length (swap_elems i j xs) = length xs"
  by (simp add: swap_elems_def)

lemma swap_elems_set: "i < length xs \<Longrightarrow> j < length xs \<Longrightarrow> set (swap_elems i j xs) = set xs"
  unfolding swap_elems_def by (rule set_swap)

lemma swap_elems_distinct:
  "i < length xs \<Longrightarrow> j < length xs \<Longrightarrow> distinct (swap_elems i j xs) = distinct xs"
  unfolding swap_elems_def by (rule distinct_swap)

lemma swap_elems_nth:
  "i < length xs \<Longrightarrow> j < length xs \<Longrightarrow>
     swap_elems i j xs ! k = (if k = j then xs ! i else if k = i then xs ! j else xs ! k)"
  by (auto simp: swap_elems_def nth_list_update)

lemma fisher_yates_props:
  assumes "k < length sh" and "\<forall>i. 0 < i \<and> i \<le> k \<longrightarrow> rnd i \<le> i"
  shows "length (fisher_yates rnd k sh) = length sh
       \<and> set (fisher_yates rnd k sh) = set sh
       \<and> distinct (fisher_yates rnd k sh) = distinct sh
       \<and> (\<forall>i. k < i \<and> i < length sh \<longrightarrow> fisher_yates rnd k sh ! i = sh ! i)"
  using assms
proof (induction k arbitrary: sh)
  case 0
  then show ?case by simp
next
  case (Suc k)
  let ?sh = "swap_elems (Suc k) (rnd (Suc k)) sh"
  have j: "rnd (Suc k) < length sh" using Suc.prems by (meson le_less_trans zero_less_Suc order_refl)
  have "k < length ?sh" "\<forall>i. 0 < i \<and> i \<le> k \<longrightarrow> rnd i \<le> i" using Suc.prems by simp_all
  moreover have "rnd (Suc k) \<le> Suc k" using Suc.prems(2) by simp
  ultimately show ?case
    using Suc.IH [of ?sh] Suc.prems(1) j
    by (simp add: swap_elems_set swap_elems_distinct swap_elems_nth)
qed

lemma fisher_yates_top:
  assumes "Suc k < length sh" and "\<forall>i. 0 < i \<and> i \<le> Suc k \<longrightarrow> rnd i \<le> i"
  shows "fisher_yates rnd (Suc k) sh ! Suc k = sh ! rnd (Suc k)"
proof -
  let ?sh = "swap_elems (Suc k) (rnd (Suc k)) sh"
  have j: "rnd (Suc k) < length sh" using assms by (meson le_less_trans zero_less_Suc order_refl)
  have "k < length ?sh" "\<forall>i. 0 < i \<and> i \<le> k \<longrightarrow> rnd i \<le> i" using assms by simp_all
  from fisher_yates_props [OF this] have "fisher_yates rnd k ?sh ! Suc k = ?sh ! Suc k"
    using assms(1) by simp
  then show ?thesis using assms(1) j by (simp add: swap_elems_nth)
qed

text \<open>Different draws give different shuffles.\<close>

lemma fisher_yates_inj:
  assumes "k < length sh" and "distinct sh"
    and "\<forall>i. 0 < i \<and> i \<le> k \<longrightarrow> rnd i \<le> i" and "\<forall>i. 0 < i \<and> i \<le> k \<longrightarrow> rnd' i \<le> i"
    and "fisher_yates rnd k sh = fisher_yates rnd' k sh"
  shows "\<forall>i. 0 < i \<and> i \<le> k \<longrightarrow> rnd i = rnd' i"
  using assms
proof (induction k arbitrary: sh)
  case 0
  then show ?case by simp
next
  case (Suc k)
  have j: "rnd (Suc k) < length sh" "rnd' (Suc k) < length sh"
    using Suc.prems by (meson le_less_trans zero_less_Suc order_refl)+
  have "sh ! rnd (Suc k) = sh ! rnd' (Suc k)"
    using fisher_yates_top [OF Suc.prems(1,3)] fisher_yates_top [OF Suc.prems(1,4)] Suc.prems(5)
    by simp
  then have top: "rnd (Suc k) = rnd' (Suc k)"
    using j Suc.prems(2) by (simp add: nth_eq_iff_index_eq)
  let ?sh = "swap_elems (Suc k) (rnd (Suc k)) sh"
  have "\<forall>i. 0 < i \<and> i \<le> k \<longrightarrow> rnd i = rnd' i"
  proof (rule Suc.IH [of ?sh])
    show "k < length ?sh" using Suc.prems(1) by simp
    show "distinct ?sh" using Suc.prems(1,2) j by (simp add: swap_elems_distinct)
    show "\<forall>i. 0 < i \<and> i \<le> k \<longrightarrow> rnd i \<le> i" "\<forall>i. 0 < i \<and> i \<le> k \<longrightarrow> rnd' i \<le> i"
      using Suc.prems(3,4) by simp_all
    show "fisher_yates rnd k ?sh = fisher_yates rnd' k ?sh"
      using Suc.prems(5) top by simp
  qed
  with top show ?case by (auto simp: le_Suc_eq)
qed

section \<open>From the shuffle to the mapping\<close>

lemma inverse_fold:
  assumes "distinct sh" and "j \<le> length sh"
  shows "fold (\<lambda>i mapping. mapping(sh ! i \<mapsto> i)) [0..<j] Map.empty k
           = (if \<exists>i < j. sh ! i = k then Some (THE i. i < j \<and> sh ! i = k) else None)"
  using assms(2)
proof (induction j)
  case 0
  then show ?case by simp
next
  case (Suc j)
  have uniq: "(THE i. i < Suc j \<and> sh ! i = sh ! i') = i'" if "i' < Suc j" for i'
    using that Suc.prems assms(1) by (intro the_equality) (auto simp: nth_eq_iff_index_eq)
  show ?case
  proof (cases "sh ! j = k")
    case True
    then show ?thesis using uniq [of j] by auto
  next
    case False
    have "(\<exists>i < Suc j. sh ! i = k) = (\<exists>i < j. sh ! i = k)"
      using False less_Suc_eq by auto
    moreover have "(THE i. i < Suc j \<and> sh ! i = k) = (THE i. i < j \<and> sh ! i = k)"
      using False by (metis less_Suc_eq)
    ultimately show ?thesis using Suc False by simp
  qed
qed

lemma inverse_map_nth:
  assumes "distinct sh" and "i < length sh"
  shows "fold (\<lambda>i mapping. mapping(sh ! i \<mapsto> i)) [0..<length sh] Map.empty (sh ! i) = Some i"
proof -
  have "(THE i'. i' < length sh \<and> sh ! i' = sh ! i) = i"
    using assms by (intro the_equality) (auto simp: nth_eq_iff_index_eq)
  then show ?thesis using assms by (auto simp: inverse_fold)
qed

lemma inverse_map_dom:
  assumes "distinct sh"
  shows "dom (fold (\<lambda>i mapping. mapping(sh ! i \<mapsto> i)) [0..<length sh] Map.empty) = set sh"
  using assms by (auto simp: inverse_fold dom_def in_set_conv_nth split: if_splits)

lemma shuffled_props:
  assumes "\<forall>i. 0 < i \<and> i < n \<longrightarrow> rnd i \<le> i"
  shows "length (fisher_yates rnd (n - 1) [0..<n]) = n"
    and "set (fisher_yates rnd (n - 1) [0..<n]) = {0..<n}"
    and "distinct (fisher_yates rnd (n - 1) [0..<n])"
proof -
  have "length (fisher_yates rnd (n - 1) [0..<n]) = n
      \<and> set (fisher_yates rnd (n - 1) [0..<n]) = {0..<n}
      \<and> distinct (fisher_yates rnd (n - 1) [0..<n])"
  proof (cases n)
    case 0
    then show ?thesis by simp
  next
    case (Suc k)
    have "k < length [0..<Suc k]" by simp
    moreover have "\<forall>i. 0 < i \<and> i \<le> k \<longrightarrow> rnd i \<le> i" using assms Suc by simp
    ultimately have "length (fisher_yates rnd k [0..<Suc k]) = length [0..<Suc k]
       \<and> set (fisher_yates rnd k [0..<Suc k]) = set [0..<Suc k]
       \<and> distinct (fisher_yates rnd k [0..<Suc k]) = distinct [0..<Suc k]"
      using fisher_yates_props [of k "[0..<Suc k]" rnd] by blast
    moreover have "set [0..<Suc k] = {0..<Suc k}" "distinct [0..<Suc k]" "length [0..<Suc k] = Suc k"
      by (simp_all del: upt_Suc)
    ultimately show ?thesis using Suc by (simp del: upt_Suc)
  qed
  then show "length (fisher_yates rnd (n - 1) [0..<n]) = n"
    and "set (fisher_yates rnd (n - 1) [0..<n]) = {0..<n}"
    and "distinct (fisher_yates rnd (n - 1) [0..<n])" by simp_all
qed

lemma inverse_map_permutation:
  assumes "distinct sh" and "set sh = {0..<n}" and "length sh = n"
  shows "is_permutation n (fold (\<lambda>i mapping. mapping(sh ! i \<mapsto> i)) [0..<n] Map.empty)"
proof -
  let ?m = "fold (\<lambda>i mapping. mapping(sh ! i \<mapsto> i)) [0..<n] Map.empty"
  have nth: "?m (sh ! i) = Some i" if "i < n" for i
    using inverse_map_nth [OF assms(1), of i] that assms(3) by simp
  have dom: "dom ?m = {0..<n}"
    using inverse_map_dom [OF assms(1)] assms(2,3) by simp
  have "bij_betw (\<lambda>p. the (?m p)) {0..<n} {0..<n}"
  proof (rule bij_betw_byWitness [where f' = "\<lambda>i. sh ! i"])
    show "\<forall>p \<in> {0..<n}. sh ! the (?m p) = p"
    proof
      fix p assume "p \<in> {0..<n}"
      then have "p \<in> set sh" using assms(2) by simp
      then obtain i where "i < n" "sh ! i = p" using assms(3) by (auto simp: in_set_conv_nth)
      then show "sh ! the (?m p) = p" using nth [of i] by simp
    qed
    show "\<forall>i \<in> {0..<n}. the (?m (sh ! i)) = i" using nth by simp
    show "(\<lambda>p. the (?m p)) ` {0..<n} \<subseteq> {0..<n}"
    proof
      fix y assume "y \<in> (\<lambda>p. the (?m p)) ` {0..<n}"
      then obtain p where p: "p \<in> {0..<n}" "y = the (?m p)" by blast
      then have "p \<in> set sh" using assms(2) by simp
      then obtain i where "i < n" "sh ! i = p" using assms(3) by (auto simp: in_set_conv_nth)
      then show "y \<in> {0..<n}" using nth [of i] p(2) by simp
    qed
    show "(\<lambda>i. sh ! i) ` {0..<n} \<subseteq> {0..<n}"
      using assms(2,3) by (metis atLeastLessThan_iff image_subsetI nth_mem)
  qed
  with dom show ?thesis by (simp add: is_permutation_def)
qed

lemma generateRandomMapping_permutation:
  assumes "\<forall>i. 0 < i \<and> i < n \<longrightarrow> rnd i \<le> i"
  shows "is_permutation n (generateRandomMapping rnd n)"
  unfolding generateRandomMapping_def Let_def
  using shuffled_props [OF assms] by (intro inverse_map_permutation)

lemma inverse_map_inj:
  assumes "distinct sh" and "distinct sh'" and "length sh = n" and "length sh' = n"
    and "fold (\<lambda>i mapping. mapping(sh ! i \<mapsto> i)) [0..<n] Map.empty
         = fold (\<lambda>i mapping. mapping(sh' ! i \<mapsto> i)) [0..<n] Map.empty"
  shows "sh = sh'"
proof (rule nth_equalityI)
  show "length sh = length sh'" using assms(3,4) by simp
  fix i assume i: "i < length sh"
  let ?m = "fold (\<lambda>i mapping. mapping(sh ! i \<mapsto> i)) [0..<n] Map.empty"
  have "?m (sh' ! i) = Some i"
    using inverse_map_nth [OF assms(2), of i] i assms(3,4,5) by simp
  then have "(\<exists>i' < n. sh ! i' = sh' ! i) \<and> (THE i'. i' < n \<and> sh ! i' = sh' ! i) = i"
    using inverse_fold [OF assms(1), of n "sh' ! i"] assms(3) by (auto split: if_splits)
  then obtain i' where i': "i' < n" "sh ! i' = sh' ! i"
    and the: "(THE i'. i' < n \<and> sh ! i' = sh' ! i) = i" by blast
  have "(THE i'. i' < n \<and> sh ! i' = sh' ! i) = i'"
  proof (rule the_equality)
    show "i' < n \<and> sh ! i' = sh' ! i" using i' by simp
    show "k = i'" if "k < n \<and> sh ! k = sh' ! i" for k
      using that i' assms(1,3) nth_eq_iff_index_eq [of sh k i'] by simp
  qed
  then show "sh ! i = sh' ! i" using i' the by simp
qed

section \<open>Counting the draws\<close>

lemma draw_valid:
  assumes "js \<in> fy_choices n" and "0 < i" and "i < n"
  shows "draw js i \<le> i"
proof -
  have "i - 1 < n - 1" using assms(2,3) by simp
  then have "js ! (i - 1) \<le> Suc (i - 1)" using assms(1) by (simp add: fy_choices_def)
  then show ?thesis using assms(2) by (simp add: draw_def)
qed

lemma draw_eq:
  assumes "js \<in> fy_choices n" and "js' \<in> fy_choices n"
    and "\<forall>i. 0 < i \<and> i \<le> n - 1 \<longrightarrow> draw js i = draw js' i"
  shows "js = js'"
proof (rule nth_equalityI)
  show "length js = length js'" using assms(1,2) by (simp add: fy_choices_def)
  fix i assume "i < length js"
  then have "0 < Suc i \<and> Suc i \<le> n - 1" using assms(1) by (simp add: fy_choices_def)
  with assms(3) have "draw js (Suc i) = draw js' (Suc i)" by blast
  then show "js ! i = js' ! i" by (simp add: draw_def)
qed

text \<open>Different draws give different mappings.\<close>

lemma generateRandomMapping_inj: "inj_on (\<lambda>js. generateRandomMapping (draw js) n) (fy_choices n)"
proof (rule inj_onI)
  fix js js' assume js: "js \<in> fy_choices n" "js' \<in> fy_choices n"
    and eq: "generateRandomMapping (draw js) n = generateRandomMapping (draw js') n"
  have v: "\<forall>i. 0 < i \<and> i < n \<longrightarrow> draw js i \<le> i" "\<forall>i. 0 < i \<and> i < n \<longrightarrow> draw js' i \<le> i"
    using draw_valid js by blast+
  have sh: "fisher_yates (draw js) (n - 1) [0..<n] = fisher_yates (draw js') (n - 1) [0..<n]"
    using eq shuffled_props [OF v(1)] shuffled_props [OF v(2)]
    unfolding generateRandomMapping_def Let_def by (intro inverse_map_inj [of _ _ n])
  show "js = js'"
  proof (cases n)
    case 0
    with js show ?thesis by (simp add: fy_choices_def)
  next
    case (Suc k)
    have "\<forall>i. 0 < i \<and> i \<le> k \<longrightarrow> draw js i = draw js' i"
    proof (rule fisher_yates_inj [of k "[0..<n]"])
      show "k < length [0..<n]" using Suc by simp
      show "distinct [0..<n]" by simp
      show "\<forall>i. 0 < i \<and> i \<le> k \<longrightarrow> draw js i \<le> i" "\<forall>i. 0 < i \<and> i \<le> k \<longrightarrow> draw js' i \<le> i"
        using v Suc by simp_all
      show "fisher_yates (draw js) k [0..<n] = fisher_yates (draw js') k [0..<n]"
        using sh Suc by simp
    qed
    then show ?thesis using draw_eq [OF js] Suc by simp
  qed
qed

lemma fy_choices_0: "fy_choices 0 = {[]}" "fy_choices (Suc 0) = {[]}"
  by (auto simp: fy_choices_def)

lemma fy_choices_Suc:
  "fy_choices (Suc (Suc m)) = (\<lambda>(js, j). js @ [j]) ` (fy_choices (Suc m) \<times> {0..Suc m})"
proof (intro set_eqI iffI)
  fix js assume "js \<in> fy_choices (Suc (Suc m))"
  then have len: "length js = Suc m" and b: "\<forall>i < Suc m. js ! i \<le> Suc i"
    by (simp_all add: fy_choices_def)
  from len obtain js' j where js: "js = js' @ [j]" "length js' = m"
    by (metis length_Suc_conv_rev)
  have "js' \<in> fy_choices (Suc m)"
    using b js by (auto simp: fy_choices_def nth_append split: if_splits)
  moreover have "j \<le> Suc m" using b js by (auto simp: nth_append split: if_splits)
  ultimately show "js \<in> (\<lambda>(js, j). js @ [j]) ` (fy_choices (Suc m) \<times> {0..Suc m})"
    using js(1) by force
next
  fix js assume "js \<in> (\<lambda>(js, j). js @ [j]) ` (fy_choices (Suc m) \<times> {0..Suc m})"
  then obtain js' j where "js = js' @ [j]" "js' \<in> fy_choices (Suc m)" "j \<le> Suc m" by auto
  then show "js \<in> fy_choices (Suc (Suc m))"
    by (auto simp: fy_choices_def nth_append less_Suc_eq)
qed

lemma fy_choices_card: "finite (fy_choices n) \<and> card (fy_choices n) = fact n"
proof (induction n rule: less_induct)
  case (less n)
  show ?case
  proof (cases n)
    case 0
    then show ?thesis by (simp add: fy_choices_0)
  next
    case (Suc k)
    show ?thesis
    proof (cases k)
      case 0
      with Suc show ?thesis by (simp add: fy_choices_0)
    next
      case (Suc m)
      have ih: "finite (fy_choices (Suc m))" "card (fy_choices (Suc m)) = fact (Suc m)"
        using less.IH [of "Suc m"] Suc \<open>n = Suc k\<close> by simp_all
      have inj: "inj_on (\<lambda>(js, j). js @ [j]) (fy_choices (Suc m) \<times> {0..Suc m})"
        by (auto simp: inj_on_def)
      have "card (fy_choices (Suc (Suc m))) = card (fy_choices (Suc m) \<times> {0..Suc m})"
        unfolding fy_choices_Suc by (rule card_image [OF inj])
      also have "\<dots> = fact (Suc m) * (Suc (Suc m))"
        using ih by (simp add: card_cartesian_product)
      finally have "card (fy_choices (Suc (Suc m))) = fact (Suc (Suc m))"
        by (simp add: mult.commute)
      moreover have "finite (fy_choices (Suc (Suc m)))"
        unfolding fy_choices_Suc using ih(1) by simp
      ultimately show ?thesis using Suc \<open>n = Suc k\<close> by simp
    qed
  qed
qed

section \<open>Every permutation is drawn exactly once\<close>

lemma permutation_list_inj:
  "inj_on (\<lambda>m. map (\<lambda>p. the (m p)) [0..<n]) {m. is_permutation n m}"
proof (rule inj_onI)
  fix m m' :: "nat \<rightharpoonup> nat"
  assume m: "m \<in> {m. is_permutation n m}" and m': "m' \<in> {m. is_permutation n m}"
    and eq: "map (\<lambda>p. the (m p)) [0..<n] = map (\<lambda>p. the (m' p)) [0..<n]"
  have d: "dom m = {0..<n}" "dom m' = {0..<n}" using m m' by (simp_all add: is_permutation_def)
  show "m = m'"
  proof
    fix p
    show "m p = m' p"
    proof (cases "p < n")
      case True
      then have "the (m p) = the (m' p)" using eq by simp
      moreover have "p \<in> dom m" "p \<in> dom m'" using True d by simp_all
      ultimately show ?thesis by auto
    next
      case False
      then have "p \<notin> dom m" "p \<notin> dom m'" using d by simp_all
      then show ?thesis by (simp add: domIff)
    qed
  qed
qed

lemma permutation_list_range:
  "(\<lambda>m. map (\<lambda>p. the (m p)) [0..<n]) ` {m. is_permutation n m}
     \<subseteq> {xs. length xs = n \<and> distinct xs \<and> set xs \<subseteq> {0..<n}}"
proof
  fix xs assume "xs \<in> (\<lambda>m. map (\<lambda>p. the (m p)) [0..<n]) ` {m. is_permutation n m}"
  then obtain m where m: "is_permutation n m" and xs: "xs = map (\<lambda>p. the (m p)) [0..<n]" by blast
  from m have b: "bij_betw (\<lambda>p. the (m p)) {0..<n} {0..<n}" by (simp add: is_permutation_def)
  then have "inj_on (\<lambda>p. the (m p)) (set [0..<n])" by (simp add: bij_betw_def)
  then have "distinct xs" unfolding xs by (simp add: distinct_map)
  moreover have "set xs \<subseteq> {0..<n}" unfolding xs using b by (auto simp: bij_betw_def)
  ultimately show "xs \<in> {xs. length xs = n \<and> distinct xs \<and> set xs \<subseteq> {0..<n}}"
    using xs by simp
qed

lemma distinct_lists_card:
  "finite {xs :: nat list. length xs = n \<and> distinct xs \<and> set xs \<subseteq> {0..<n}}"
  "card {xs :: nat list. length xs = n \<and> distinct xs \<and> set xs \<subseteq> {0..<n}} = fact n"
proof -
  have "finite {xs :: nat list. set xs \<subseteq> {0..<n} \<and> length xs = n}"
    by (rule finite_lists_length_eq) simp
  then show "finite {xs :: nat list. length xs = n \<and> distinct xs \<and> set xs \<subseteq> {0..<n}}"
    by (rule rev_finite_subset) auto
  have "card {xs :: nat list. length xs = n \<and> distinct xs \<and> set xs \<subseteq> {0..<n}}
          = \<Prod>{card {0..<n} - n + 1..card {0..<n}}"
    by (rule card_lists_distinct_length_eq) simp_all
  then show "card {xs :: nat list. length xs = n \<and> distinct xs \<and> set xs \<subseteq> {0..<n}} = fact n"
    by (simp add: fact_prod)
qed

lemma permutations_card:
  "finite {m. is_permutation n m}" "card {m. is_permutation n m} \<le> fact n"
proof -
  let ?F = "\<lambda>m. map (\<lambda>p. the (m p)) [0..<n]"
  have fin: "finite (?F ` {m. is_permutation n m})"
    using permutation_list_range distinct_lists_card(1) by (rule finite_subset)
  then show "finite {m. is_permutation n m}"
    using permutation_list_inj by (rule finite_imageD)
  have "card {m. is_permutation n m} = card (?F ` {m. is_permutation n m})"
    using card_image [OF permutation_list_inj] by simp
  also have "\<dots> \<le> card {xs :: nat list. length xs = n \<and> distinct xs \<and> set xs \<subseteq> {0..<n}}"
    by (rule card_mono [OF distinct_lists_card(1) permutation_list_range])
  also have "\<dots> = fact n" by (rule distinct_lists_card(2))
  finally show "card {m. is_permutation n m} \<le> fact n" .
qed

lemma generateRandomMapping_surj:
  "(\<lambda>js. generateRandomMapping (draw js) n) ` fy_choices n = {m. is_permutation n m}"
proof (rule card_subset_eq)
  show "finite {m. is_permutation n m}" by (rule permutations_card)
  show sub: "(\<lambda>js. generateRandomMapping (draw js) n) ` fy_choices n \<subseteq> {m. is_permutation n m}"
    using generateRandomMapping_permutation draw_valid by blast
  have "card ((\<lambda>js. generateRandomMapping (draw js) n) ` fy_choices n) = fact n"
    using card_image [OF generateRandomMapping_inj] fy_choices_card by simp
  moreover have "card ((\<lambda>js. generateRandomMapping (draw js) n) ` fy_choices n)
      \<le> card {m. is_permutation n m}"
    using sub permutations_card(1) by (intro card_mono)
  ultimately show "card ((\<lambda>js. generateRandomMapping (draw js) n) ` fy_choices n)
      = card {m. is_permutation n m}"
    using permutations_card(2) [of n] by simp
qed

lemma generateRandomMapping_once:
  assumes "is_permutation n \<pi>"
  shows "card {js \<in> fy_choices n. generateRandomMapping (draw js) n = \<pi>} = 1"
proof -
  from assms generateRandomMapping_surj [of n]
  obtain js where js: "js \<in> fy_choices n" "generateRandomMapping (draw js) n = \<pi>"
    by (metis (mono_tags, lifting) imageE mem_Collect_eq)
  have "{js \<in> fy_choices n. generateRandomMapping (draw js) n = \<pi>} = {js}"
    using js generateRandomMapping_inj [of n] by (auto simp: inj_on_def)
  then show ?thesis by simp
qed

text \<open>
  C2. For every \<open>n\<close>, and so for every \<open>n \<ge> 2\<close>: when each draw \<open>rnd i\<close> of the Fisher--Yates
  loop lies in \<open>0..i\<close>, \<open>generateRandomMapping\<close> returns a permutation of \<open>0..n-1\<close>. The draw
  sequences of a run are the lists of \<open>fy_choices n\<close> (one draw from \<open>0..i\<close> for every
  \<open>i\<close> from \<open>n - 1\<close> down to 1); there are \<open>n!\<close> of them, each as likely as any other under
  uniform draws, and every permutation is the result of exactly one: it is produced with
  probability \<open>1 / n!\<close>.
\<close>

theorem generateRandomMapping_uniform:
  "((\<forall>i. 0 < i \<and> i < n \<longrightarrow> rnd i \<le> i) \<longrightarrow> is_permutation n (generateRandomMapping rnd n))
   \<and> (\<forall>js \<in> fy_choices n. \<forall>i. 0 < i \<and> i < n \<longrightarrow> draw js i \<le> i)
   \<and> card (fy_choices n) = fact n
   \<and> (is_permutation n \<pi> \<longrightarrow>
        card {js \<in> fy_choices n. generateRandomMapping (draw js) n = \<pi>} = 1
        \<and> real (card {js \<in> fy_choices n. generateRandomMapping (draw js) n = \<pi>})
            / real (card (fy_choices n)) = 1 / fact n)"
  using generateRandomMapping_permutation [of n rnd] draw_valid [of _ n]
    fy_choices_card [of n] generateRandomMapping_once [of n \<pi>]
  by simp

theorem generateRandomMapping_uniform_witness:
  "is_permutation 3 (generateRandomMapping (\<lambda>i. 0) 3)
   \<and> [1, 0] \<in> fy_choices 3 \<and> draw [1, 0] 2 \<le> 2
   \<and> card (fy_choices 3) = 6
   \<and> real (card {js \<in> fy_choices 3.
         generateRandomMapping (draw js) 3 = generateRandomMapping (\<lambda>i. 0) 3})
        / real (card (fy_choices 3)) = 1 / 6"
proof -
  note inst = generateRandomMapping_uniform [of 3 "\<lambda>i. 0" "generateRandomMapping (\<lambda>i. 0) 3"]
  have h: "\<forall>i. 0 < i \<and> i < 3 \<longrightarrow> (\<lambda>i. 0 :: nat) i \<le> i" by simp
  with inst have p: "is_permutation 3 (generateRandomMapping (\<lambda>i. 0) 3)" by blast
  have c: "[1, 0] \<in> fy_choices 3" by (simp add: fy_choices_def less_Suc_eq numeral_2_eq_2)
  with inst have "draw [1, 0] 2 \<le> 2" by simp
  moreover have "fact 3 = (6::nat)" "fact 3 = (6::real)" by (simp_all add: fact_numeral)
  ultimately show ?thesis using inst p c by simp
qed

section \<open>Arrangements: the arrays of calculateAdjustmentTranspositions\<close>

lemma arranged_surj:
  assumes "arranged n w a" and "k < n"
  obtains p where "p < n" and "a p = k" and "w ! k = Some p"
proof -
  have "a ` {0..<n} \<subseteq> {0..<n}" using assms(1) by (auto simp: arranged_def)
  moreover have "inj_on a {0..<n}" using assms(1) by (simp add: arranged_def)
  ultimately have "a ` {0..<n} = {0..<n}" by (intro endo_inj_surj) simp_all
  moreover have "k \<in> {0..<n}" using assms(2) by simp
  ultimately have "k \<in> a ` {0..<n}" by simp
  then obtain p where p: "p < n" "a p = k" by auto
  then have "w ! k = Some p" using assms(1) by (auto simp: arranged_def)
  with p show ?thesis by (rule that)
qed

lemma arranged_pos:
  assumes "arranged n w a" and "k < n" and "w ! k = Some p"
  shows "p < n \<and> a p = k"
proof -
  obtain p' where "p' < n" "a p' = k" "w ! k = Some p'"
    using arranged_surj [OF assms(1,2)] by blast
  then show ?thesis using assms(3) by simp
qed

lemma arranged_distinct:
  assumes "arranged n w a"
  shows "distinct w"
  unfolding distinct_conv_nth
proof (intro allI impI)
  fix k k' assume k: "k < length w" "k' < length w" "k \<noteq> k'"
  have n: "k < n" "k' < n" using k assms by (simp_all add: arranged_def)
  obtain p where p: "w ! k = Some p" using arranged_surj [OF assms n(1)] by blast
  show "w ! k \<noteq> w ! k'"
  proof
    assume "w ! k = w ! k'"
    then have "w ! k' = Some p" using p by simp
    from arranged_pos [OF assms n(2) this] arranged_pos [OF assms n(1) p] k(3)
    show False by simp
  qed
qed

lemma indexOf_first:
  "indexOf xs x = Some k \<longleftrightarrow> k < length xs \<and> xs ! k = x \<and> (\<forall>i < k. xs ! i \<noteq> x)"
proof (induction xs arbitrary: k)
  case Nil
  then show ?case by simp
next
  case (Cons y ys)
  show ?case
  proof (cases "y = x")
    case True
    then show ?thesis by (cases k) auto
  next
    case False
    show ?thesis
    proof (cases k)
      case 0
      with False show ?thesis by simp
    next
      case (Suc k')
      have "(\<forall>i < Suc k'. (y # ys) ! i \<noteq> x) \<longleftrightarrow> (\<forall>i < k'. ys ! i \<noteq> x)"
        using False by (auto simp: less_Suc_eq_0_disj)
      then show ?thesis using False Suc Cons.IH [of k'] by auto
    qed
  qed
qed

lemma arranged_indexOf:
  assumes "arranged n w a" and "p < n"
  shows "indexOf w (Some p) = Some (a p)"
proof -
  have len: "length w = n" and ap: "a p < n" "w ! a p = Some p"
    using assms by (simp_all add: arranged_def)
  have "w ! i \<noteq> Some p" if "i < a p" for i
  proof
    assume "w ! i = Some p"
    moreover have "i < n" using that ap(1) by simp
    ultimately have "a p = i" using arranged_pos [OF assms(1)] by blast
    with that show False by simp
  qed
  then show ?thesis using len ap by (simp add: indexOf_first)
qed

text \<open>The array built from a permutation holds, at every position, the participant that the
  permutation sends there.\<close>

lemma array_set_in_range: "k < length arr \<Longrightarrow> array_set arr k v = arr[k := Some v]"
  by (simp add: array_set_def)

lemma build_perm_arranged:
  assumes "is_permutation n m"
  shows "arranged n (build_perm m n) (\<lambda>p. the (m p))"
proof -
  let ?a = "\<lambda>p. the (m p)"
  let ?step = "\<lambda>p perm. case m p of Some k \<Rightarrow> array_set perm k p | None \<Rightarrow> perm"
  have bij: "bij_betw ?a {0..<n} {0..<n}" and dom: "dom m = {0..<n}"
    using assms by (simp_all add: is_permutation_def)
  have inj: "inj_on ?a {0..<n}" using bij by (simp add: bij_betw_def)
  have range: "?a p < n" if "p < n" for p
    using bij that by (auto simp: bij_betw_def)
  have some: "m p = Some (?a p)" if "p < n" for p
  proof -
    have "p \<in> dom m" using dom that by simp
    then show ?thesis by auto
  qed
  have inv: "length (fold ?step [0..<j] (replicate n None)) = n
      \<and> (\<forall>p < j. fold ?step [0..<j] (replicate n None) ! ?a p = Some p)" if "j \<le> n" for j
    using that
  proof (induction j)
    case 0
    then show ?case by simp
  next
    case (Suc j)
    let ?w = "fold ?step [0..<j] (replicate n None)"
    have ih: "length ?w = n" "\<forall>p < j. ?w ! ?a p = Some p" using Suc by simp_all
    have j: "j < n" using Suc.prems by simp
    obtain k where k: "m j = Some k" "k < n" "?a j = k"
      using some [OF j] range [OF j] by simp
    have step: "fold ?step [0..<Suc j] (replicate n None) = ?w[?a j := Some j]"
      using k ih(1) by (simp add: array_set_in_range)
    have "?w[?a j := Some j] ! ?a p = Some p" if "p < Suc j" for p
    proof (cases "p = j")
      case True
      then show ?thesis using range [OF j] ih(1) by simp
    next
      case False
      then have p: "p < j" using that by simp
      then have "?a p \<noteq> ?a j" using inj_onD [OF inj, of p j] j by auto
      then show ?thesis using ih(2) p by simp
    qed
    then show ?case unfolding step using ih(1) by simp
  qed
  from inv [of n] inj range show ?thesis
    by (simp add: arranged_def build_perm_def)
qed

section \<open>Inversions\<close>

lemma swap_columns_less [simp]: "Suc c < n \<Longrightarrow> k < n \<Longrightarrow> swap_columns c k < n"
  by (simp add: swap_columns_def)

lemma swap_columns_inj: "inj (swap_columns c)"
  by (rule inj_on_inverseI [where g = "swap_columns c"]) simp

lemma swap_columns_mono:
  "x < y \<Longrightarrow> \<not> (x = c \<and> y = Suc c) \<Longrightarrow> swap_columns c x < swap_columns c y"
  by (auto simp: swap_columns_def)

lemma inversions_finite [simp]: "finite (inversions n a t)"
proof (rule finite_subset)
  show "inversions n a t \<subseteq> {0..<n} \<times> {0..<n}" by (auto simp: inversions_def)
qed simp

lemma inj_swapped:
  "inj_on a A \<Longrightarrow> inj_on (\<lambda>p. swap_columns c (a p)) A"
  using comp_inj_on [OF _ inj_on_subset [OF swap_columns_inj], of a A c] by (simp add: comp_def)

text \<open>One adjacent swap removes at most one inversion.\<close>

lemma inversions_swap_lower:
  assumes "inj_on a {0..<n}"
  shows "card (inversions n a t) \<le> card (inversions n (\<lambda>p. swap_columns c (a p)) t) + 1"
proof -
  let ?P = "{(p, q). p < n \<and> q < n \<and> a p = c \<and> a q = Suc c}"
  have sub: "inversions n a t \<subseteq> inversions n (\<lambda>p. swap_columns c (a p)) t \<union> ?P"
    using swap_columns_mono [of _ _ c] by (fastforce simp: inversions_def)
  have "card ?P \<le> 1"
  proof (cases "\<exists>p q. p < n \<and> q < n \<and> a p = c \<and> a q = Suc c")
    case False
    then have "?P = {}" by auto
    then show ?thesis by (simp only: card.empty)
  next
    case True
    then obtain p q where pq: "p < n" "q < n" "a p = c" "a q = Suc c" by auto
    have "?P \<subseteq> {(p, q)}"
      using pq inj_onD [OF assms] by fastforce
    then have "card ?P \<le> card {(p, q)}" by (intro card_mono) simp_all
    then show ?thesis by simp
  qed
  moreover have "finite ?P"
    by (rule finite_subset [of _ "{0..<n} \<times> {0..<n}"]) auto
  ultimately have "card (inversions n (\<lambda>p. swap_columns c (a p)) t \<union> ?P)
      \<le> card (inversions n (\<lambda>p. swap_columns c (a p)) t) + 1"
    using card_Un_le [of "inversions n (\<lambda>p. swap_columns c (a p)) t" ?P] by simp
  moreover have "card (inversions n a t)
      \<le> card (inversions n (\<lambda>p. swap_columns c (a p)) t \<union> ?P)"
    using sub \<open>finite ?P\<close> by (intro card_mono) simp_all
  ultimately show ?thesis by simp
qed

lemma inversions_fold_lower:
  assumes "inj_on a {0..<n}"
  shows "card (inversions n a t)
           \<le> length ts + card (inversions n (\<lambda>p. fold swap_columns ts (a p)) t)"
  using assms
proof (induction ts arbitrary: a)
  case Nil
  then show ?case by simp
next
  case (Cons c ts)
  have "card (inversions n (\<lambda>p. swap_columns c (a p)) t)
      \<le> length ts + card (inversions n (\<lambda>p. fold swap_columns ts (swap_columns c (a p))) t)"
    by (rule Cons.IH [OF inj_swapped [OF Cons.prems]])
  with inversions_swap_lower [OF Cons.prems, of t c] show ?case by simp
qed

text \<open>A swap of two adjacent elements that stand in the wrong order removes exactly one.\<close>

lemma inversions_swap_exact:
  assumes inj: "inj_on a {0..<n}" and "p0 < n" and "q0 < n" and "a p0 = c" and "a q0 = Suc c"
    and "t q0 < t p0"
  shows "card (inversions n (\<lambda>p. swap_columns c (a p)) t) + 1 = card (inversions n a t)"
proof -
  let ?a' = "\<lambda>p. swap_columns c (a p)"
  have mem: "(p0, q0) \<in> inversions n a t" using assms by (simp add: inversions_def)
  have "inversions n ?a' t = inversions n a t - {(p0, q0)}"
  proof (intro set_eqI iffI)
    fix x assume x: "x \<in> inversions n ?a' t"
    obtain p q where pq: "x = (p, q)" by (cases x)
    from x pq have b: "p < n" "q < n" "?a' p < ?a' q" "t q < t p" by (simp_all add: inversions_def)
    have "\<not> (?a' p = c \<and> ?a' q = Suc c)"
    proof
      assume "?a' p = c \<and> ?a' q = Suc c"
      then have "a p = Suc c" "a q = c" by (auto simp: swap_columns_def split: if_splits)
      then have "p = q0" "q = p0" using inj_onD [OF inj] assms(2-5) b(1,2) by auto
      with b(4) assms(6) show False by simp
    qed
    from swap_columns_mono [OF b(3) this] have "a p < a q" by simp
    moreover have "(p, q) \<noteq> (p0, q0)"
      using b(3) assms(4,5) by (auto simp: swap_columns_def)
    ultimately show "x \<in> inversions n a t - {(p0, q0)}"
      using b pq by (simp add: inversions_def)
  next
    fix x assume x: "x \<in> inversions n a t - {(p0, q0)}"
    obtain p q where pq: "x = (p, q)" by (cases x)
    from x pq have b: "p < n" "q < n" "a p < a q" "t q < t p" "(p, q) \<noteq> (p0, q0)"
      by (simp_all add: inversions_def)
    have "\<not> (a p = c \<and> a q = Suc c)"
      using inj_onD [OF inj] assms(2-5) b(1,2,5) by auto
    from swap_columns_mono [OF b(3) this] show "x \<in> inversions n ?a' t"
      using b pq by (simp add: inversions_def)
  qed
  then have "card (inversions n ?a' t) = card (inversions n a t) - 1"
    using mem by simp
  moreover have "card (inversions n a t) \<ge> 1"
    using mem by (metis One_nat_def Suc_leI card_gt_0_iff empty_iff inversions_finite)
  ultimately show ?thesis by simp
qed

lemma inversions_same [simp]: "inversions n t t = {}"
  by (auto simp: inversions_def)

section \<open>Bubbling one participant into place\<close>

lemma swap_adjacent_arranged:
  assumes "arranged n w a" and "Suc c < n"
  shows "arranged n (swap_elems c (Suc c) w) (\<lambda>p. swap_columns c (a p))"
proof -
  have len: "length w = n" and inj: "inj_on a {0..<n}"
    and pos: "\<And>p. p < n \<Longrightarrow> a p < n \<and> w ! a p = Some p"
    using assms(1) by (simp_all add: arranged_def)
  have "swap_elems c (Suc c) w ! swap_columns c (a p) = Some p" if "p < n" for p
    using pos [OF that] assms(2) len
    by (auto simp: swap_elems_nth swap_columns_def)
  then show ?thesis
    using len inj_swapped [OF inj] pos assms(2) by (simp add: arranged_def)
qed

lemma rev_upt_Suc: "pos \<le> c \<Longrightarrow> rev [pos..<Suc c] = c # rev [pos..<c]"
  by simp

lemma bubble_stop: "cur \<le> pos \<Longrightarrow> bubble w ts pos cur = (w, ts)"
  by (subst bubble.simps) simp

lemma bubble_step:
  "pos < cur \<Longrightarrow> bubble w ts pos cur
     = bubble (swap_elems (cur - 1) cur w) (ts @ [cur - 1]) pos (cur - 1)"
  by (subst bubble.simps) simp

lemma bubble_arranged:
  assumes "arranged n w a" and "pos \<le> cur" and "cur < n" and "q < n" and "a q = cur"
    and "\<forall>p < n. pos \<le> a p \<and> a p < cur \<longrightarrow> t q < t p"
  shows "\<exists>w'. bubble w ts pos cur = (w', ts @ rev [pos..<cur])
           \<and> arranged n w' (\<lambda>p. fold swap_columns (rev [pos..<cur]) (a p))
           \<and> (\<forall>k < pos. w' ! k = w ! k) \<and> w' ! pos = Some q
           \<and> card (inversions n (\<lambda>p. fold swap_columns (rev [pos..<cur]) (a p)) t) + (cur - pos)
               = card (inversions n a t)"
  using assms
proof (induction cur arbitrary: w a ts)
  case 0
  then have "w ! 0 = Some q" by (auto simp: arranged_def)
  with 0 show ?case by (simp add: bubble_stop)
next
  case (Suc c)
  show ?case
  proof (cases "pos = Suc c")
    case True
    have "w ! Suc c = Some q" using Suc.prems(1,4,5) by (auto simp: arranged_def)
    with True Suc.prems(1) show ?thesis by (simp add: bubble_stop)
  next
    case False
    then have le: "pos \<le> c" using Suc.prems(2) by simp
    let ?w = "swap_elems c (Suc c) w"
    let ?a = "\<lambda>p. swap_columns c (a p)"
    have unfold: "bubble w ts pos (Suc c) = bubble ?w (ts @ [c]) pos c"
      using le by (simp add: bubble_step)
    have arr: "arranged n ?w ?a"
      by (rule swap_adjacent_arranged [OF Suc.prems(1,3)])
    have q: "?a q = c" using Suc.prems(5) by (simp add: swap_columns_def)
    have before: "\<forall>p < n. pos \<le> ?a p \<and> ?a p < c \<longrightarrow> t q < t p"
    proof (intro allI impI)
      fix p assume p: "p < n" "pos \<le> ?a p \<and> ?a p < c"
      then have "a p = ?a p" by (auto simp: swap_columns_def split: if_splits)
      with p Suc.prems(6) show "t q < t p" by simp
    qed
    from Suc.IH [OF arr le _ Suc.prems(4) q before, of "ts @ [c]"] Suc.prems(3)
    obtain w' where w':
      "bubble ?w (ts @ [c]) pos c = (w', (ts @ [c]) @ rev [pos..<c])"
      "arranged n w' (\<lambda>p. fold swap_columns (rev [pos..<c]) (?a p))"
      "\<forall>k < pos. w' ! k = ?w ! k" "w' ! pos = Some q"
      "card (inversions n (\<lambda>p. fold swap_columns (rev [pos..<c]) (?a p)) t) + (c - pos)
         = card (inversions n ?a t)"
      by auto
    obtain p0 where p0: "p0 < n" "a p0 = c"
      using arranged_surj [OF Suc.prems(1), of c] Suc.prems(3) by auto
    have "t q < t p0" using Suc.prems(6) p0 le by simp
    then have one: "card (inversions n ?a t) + 1 = card (inversions n a t)"
      using Suc.prems(1,4,5) p0
      by (intro inversions_swap_exact [of a n p0 q]) (simp_all add: arranged_def)
    have same: "\<forall>k < pos. ?w ! k = w ! k"
      using le Suc.prems(1,3) by (simp add: swap_elems_nth arranged_def)
    have fold: "fold swap_columns (rev [pos..<Suc c]) x = fold swap_columns (rev [pos..<c]) (swap_columns c x)" for x
      using le by simp
    show ?thesis
      unfolding unfold fold using w' same one le by auto
  qed
qed

section \<open>The loop over the target positions\<close>

lemma adjust_loop:
  assumes w0: "arranged n w0 a0" and tp: "arranged n tp t" and "j \<le> n"
  shows "\<exists>w ts. fold (adjust_pos tp) [0..<j] (w0, []) = (w, ts)
           \<and> arranged n w (\<lambda>p. fold swap_columns ts (a0 p))
           \<and> take j w = take j tp
           \<and> (\<forall>c \<in> set ts. Suc c < n)
           \<and> length ts + card (inversions n (\<lambda>p. fold swap_columns ts (a0 p)) t)
               = card (inversions n a0 t)
           \<and> length ts \<le> (\<Sum>i < j. n - Suc i)"
  using assms(3)
proof (induction j)
  case 0
  then show ?case using w0 by simp
next
  case (Suc j)
  then have j: "j < n" by simp
  from Suc obtain w ts where st: "fold (adjust_pos tp) [0..<j] (w0, []) = (w, ts)"
    and arr: "arranged n w (\<lambda>p. fold swap_columns ts (a0 p))"
    and pre: "take j w = take j tp"
    and bound: "\<forall>c \<in> set ts. Suc c < n"
    and count: "length ts + card (inversions n (\<lambda>p. fold swap_columns ts (a0 p)) t)
               = card (inversions n a0 t)"
    and len: "length ts \<le> (\<Sum>i < j. n - Suc i)"
    by auto
  let ?a = "\<lambda>p. fold swap_columns ts (a0 p)"
  have lens: "length w = n" "length tp = n" using arr tp by (simp_all add: arranged_def)
  obtain q where q: "q < n" "t q = j" "tp ! j = Some q"
    using arranged_surj [OF tp j] by blast
  have same: "w ! k = tp ! k" if "k < j" for k
    using pre that by (metis nth_take)
  have cur: "indexOf w (array_get tp j) = Some (?a q)"
    using arranged_indexOf [OF arr q(1)] q(3) j lens by (simp add: array_get_def)
  have aq: "?a q < n" using arr q(1) by (simp add: arranged_def)
  have ge: "j \<le> ?a q"
  proof (rule ccontr)
    assume "\<not> j \<le> ?a q"
    then have lt: "?a q < j" by simp
    have "w ! ?a q = Some q" using arr q(1) by (simp add: arranged_def)
    then have "tp ! ?a q = Some q" using same [OF lt] by simp
    from arranged_pos [OF tp _ this] lt j q(2) show False by simp
  qed
  have later: "\<forall>p < n. j \<le> ?a p \<and> ?a p < ?a q \<longrightarrow> t q < t p"
  proof (intro allI impI)
    fix p assume p: "p < n" "j \<le> ?a p \<and> ?a p < ?a q"
    have wp: "w ! ?a p = Some p" using arr p(1) by (simp add: arranged_def)
    have tpp: "t p < n" "tp ! t p = Some p" using tp p(1) by (simp_all add: arranged_def)
    have "t p \<noteq> j"
    proof
      assume "t p = j"
      then have "p = q" using tpp(2) q(3) by simp
      with p(2) show False by simp
    qed
    moreover have "\<not> t p < j"
    proof
      assume lt: "t p < j"
      then have "w ! t p = Some p" using same tpp(2) by simp
      from arranged_pos [OF arr tpp(1) this] lt p(2) show False by simp
    qed
    ultimately show "t q < t p" using q(2) by simp
  qed
  from bubble_arranged [OF arr ge aq q(1) refl later, of ts]
  obtain w' where w':
    "bubble w ts j (?a q) = (w', ts @ rev [j..<?a q])"
    "arranged n w' (\<lambda>p. fold swap_columns (rev [j..<?a q]) (?a p))"
    "\<forall>k < j. w' ! k = w ! k" "w' ! j = Some q"
    "card (inversions n (\<lambda>p. fold swap_columns (rev [j..<?a q]) (?a p)) t) + (?a q - j)
       = card (inversions n ?a t)"
    by blast
  let ?ts = "ts @ rev [j..<?a q]"
  have step: "fold (adjust_pos tp) [0..<Suc j] (w0, []) = (w', ?ts)"
    using st cur w'(1) by (simp add: adjust_pos_def)
  have arr': "arranged n w' (\<lambda>p. fold swap_columns ?ts (a0 p))"
    using w'(2) by simp
  have lens': "length w' = n" using arr' by (simp add: arranged_def)
  have "take (Suc j) w' = take (Suc j) tp"
  proof (rule nth_equalityI)
    show "length (take (Suc j) w') = length (take (Suc j) tp)" using lens lens' by simp
    fix k assume "k < length (take (Suc j) w')"
    then have "k < Suc j" by simp
    then show "take (Suc j) w' ! k = take (Suc j) tp ! k"
      using w'(3,4) q(3) same by (cases "k = j") simp_all
  qed
  moreover have "\<forall>c \<in> set ?ts. Suc c < n" using bound aq by auto
  moreover have "length ?ts + card (inversions n (\<lambda>p. fold swap_columns ?ts (a0 p)) t)
               = card (inversions n a0 t)"
    using count w'(5) ge by simp
  moreover have "length ?ts \<le> (\<Sum>i < Suc j. n - Suc i)"
    using len aq by simp
  ultimately show ?case using step arr' by blast
qed

section \<open>The adjustment sequence\<close>

lemma inversions_cong:
  "(\<And>p. p < n \<Longrightarrow> a p = a' p) \<Longrightarrow> inversions n a t = inversions n a' t"
  by (auto simp: inversions_def)

lemma gauss_rev_sum: "(\<Sum>i < n. n - Suc i) = n * (n - 1) div 2"
proof -
  have "(\<Sum>i < n. n - Suc i) = (\<Sum>i < n. i)"
    by (rule sum.nat_diff_reindex)
  also have "\<dots> = \<Sum>{0..<n}" by (simp add: lessThan_atLeast0)
  also have "\<dots> = n * (n - 1) div 2" by (simp add: Sum_Ico_nat)
  finally show ?thesis .
qed

lemma permutation_lookup:
  assumes "is_permutation n m"
  shows "p < n \<Longrightarrow> \<exists>k. m p = Some k" and "\<not> p < n \<Longrightarrow> m p = None"
proof -
  have "dom m = {0..<n}" using assms by (simp add: is_permutation_def)
  then have d: "p \<in> dom m \<longleftrightarrow> p < n" by simp
  show "p < n \<Longrightarrow> \<exists>k. m p = Some k" using d by auto
  show "\<not> p < n \<Longrightarrow> m p = None" using d by auto
qed

lemma adjustment_spec:
  assumes "is_permutation n actual" and "is_permutation n target"
  shows "(\<forall>p < n. fold swap_columns (calculateAdjustmentTranspositions actual target n)
                    (the (actual p)) = the (target p))
       \<and> (\<forall>c \<in> set (calculateAdjustmentTranspositions actual target n). Suc c < n)
       \<and> length (calculateAdjustmentTranspositions actual target n)
           = card (inversions n (\<lambda>p. the (actual p)) (\<lambda>p. the (target p)))
       \<and> length (calculateAdjustmentTranspositions actual target n) \<le> n * (n - 1) div 2"
proof -
  let ?a0 = "\<lambda>p. the (actual p)" and ?t = "\<lambda>p. the (target p)"
  let ?tp = "build_perm target n"
  have w0: "arranged n (build_perm actual n) ?a0" and tp: "arranged n ?tp ?t"
    using assms by (simp_all add: build_perm_arranged)
  from adjust_loop [OF w0 tp order_refl]
  obtain w ts where st: "fold (adjust_pos ?tp) [0..<n] (build_perm actual n, []) = (w, ts)"
    and arr: "arranged n w (\<lambda>p. fold swap_columns ts (?a0 p))"
    and pre: "take n w = take n ?tp"
    and bound: "\<forall>c \<in> set ts. Suc c < n"
    and count: "length ts + card (inversions n (\<lambda>p. fold swap_columns ts (?a0 p)) ?t)
               = card (inversions n ?a0 ?t)"
    and len: "length ts \<le> (\<Sum>i < n. n - Suc i)"
    by blast
  have ts: "calculateAdjustmentTranspositions actual target n = ts"
    by (simp add: calculateAdjustmentTranspositions_def st)
  have "length w = n" "length ?tp = n" using arr tp by (simp_all add: arranged_def)
  with pre have "w = ?tp" by simp
  have reach: "fold swap_columns ts (?a0 p) = ?t p" if "p < n" for p
  proof -
    have "fold swap_columns ts (?a0 p) < n" "?tp ! fold swap_columns ts (?a0 p) = Some p"
      using arr that \<open>w = ?tp\<close> by (simp_all add: arranged_def)
    from arranged_pos [OF tp this] show ?thesis by simp
  qed
  then have "inversions n (\<lambda>p. fold swap_columns ts (?a0 p)) ?t = inversions n ?t ?t"
    by (intro inversions_cong)
  with count have "length ts = card (inversions n ?a0 ?t)" by simp
  with reach bound len show ?thesis unfolding ts gauss_rev_sum by simp
qed

lemma apply_transpositions_reach:
  assumes "is_permutation n actual" and "is_permutation n target"
  shows "apply_transpositions ts actual = target
           \<longleftrightarrow> (\<forall>p < n. fold swap_columns ts (the (actual p)) = the (target p))"
proof
  assume eq: "apply_transpositions ts actual = target"
  show "\<forall>p < n. fold swap_columns ts (the (actual p)) = the (target p)"
  proof (intro allI impI)
    fix p assume "p < n"
    then obtain k where "actual p = Some k"
      using permutation_lookup(1) [OF assms(1)] by blast
    then have "apply_transpositions ts actual p = Some (fold swap_columns ts (the (actual p)))"
      by (simp add: apply_transpositions_def)
    then show "fold swap_columns ts (the (actual p)) = the (target p)"
      using eq by simp
  qed
next
  assume r: "\<forall>p < n. fold swap_columns ts (the (actual p)) = the (target p)"
  show "apply_transpositions ts actual = target"
  proof
    fix p
    show "apply_transpositions ts actual p = target p"
    proof (cases "p < n")
      case True
      then obtain k k' where "actual p = Some k" "target p = Some k'"
        using permutation_lookup(1) [OF assms(1)] permutation_lookup(1) [OF assms(2)] by blast
      then show ?thesis using r True by (auto simp: apply_transpositions_def)
    next
      case False
      then show ?thesis
        using permutation_lookup(2) [OF assms(1)] permutation_lookup(2) [OF assms(2)]
        by (simp add: apply_transpositions_def)
    qed
  qed
qed

text \<open>
  C3. For permutations \<open>actual\<close> and \<open>target\<close> of \<open>0..n-1\<close>, the list returned by
  \<open>calculateAdjustmentTranspositions\<close>, each entry \<open>c\<close> being the swap of the columns \<open>c\<close> and
  \<open>c + 1\<close>, applied in emission order to \<open>actual\<close> yields exactly \<open>target\<close>; every entry is a
  pair of columns of the ladder; no shorter sequence of adjacent transpositions transforms
  \<open>actual\<close> into \<open>target\<close>; and the length is at most \<open>n (n - 1) / 2\<close>.
\<close>

theorem calculateAdjustmentTranspositions_minimal:
  assumes "is_permutation n actual" and "is_permutation n target"
  shows "apply_transpositions (calculateAdjustmentTranspositions actual target n) actual = target
       \<and> (\<forall>c \<in> set (calculateAdjustmentTranspositions actual target n). c + 1 < n)
       \<and> (\<forall>ts. apply_transpositions ts actual = target
               \<longrightarrow> length (calculateAdjustmentTranspositions actual target n) \<le> length ts)
       \<and> length (calculateAdjustmentTranspositions actual target n) \<le> n * (n - 1) div 2"
proof -
  let ?a0 = "\<lambda>p. the (actual p)" and ?t = "\<lambda>p. the (target p)"
  note spec = adjustment_spec [OF assms]
  have "length (calculateAdjustmentTranspositions actual target n) \<le> length ts"
    if "apply_transpositions ts actual = target" for ts
  proof -
    have reach: "\<And>p. p < n \<Longrightarrow> fold swap_columns ts (?a0 p) = ?t p"
      using that apply_transpositions_reach [OF assms] by blast
    have "inj_on ?a0 {0..<n}" using assms(1) by (simp add: is_permutation_def bij_betw_def)
    from inversions_fold_lower [OF this, of ?t ts]
    have "card (inversions n ?a0 ?t) \<le> length ts + card (inversions n ?t ?t)"
      using inversions_cong [of n "\<lambda>p. fold swap_columns ts (?a0 p)" ?t ?t, OF reach] by simp
    then show ?thesis using spec by simp
  qed
  moreover have "apply_transpositions (calculateAdjustmentTranspositions actual target n) actual = target"
    using spec apply_transpositions_reach [OF assms] by blast
  ultimately show ?thesis using spec by simp
qed

theorem calculateAdjustmentTranspositions_minimal_witness:
  "is_permutation 3 (generateRandomMapping (\<lambda>i. 0) 3) \<and> is_permutation 3 (generateRandomMapping (\<lambda>i. i) 3)
   \<and> calculateAdjustmentTranspositions (generateRandomMapping (\<lambda>i. 0) 3) (generateRandomMapping (\<lambda>i. i) 3) 3 = [1, 0]
   \<and> apply_transpositions [1, 0] (generateRandomMapping (\<lambda>i. 0) 3) = generateRandomMapping (\<lambda>i. i) 3
   \<and> apply_transpositions [1, 0, 0, 0] (generateRandomMapping (\<lambda>i. 0) 3) = generateRandomMapping (\<lambda>i. i) 3
   \<and> length [1, 0 :: nat] \<le> length [1, 0, 0, 0 :: nat]
   \<and> length [1, 0 :: nat] \<le> 3 * (3 - 1) div 2"
proof -
  have pa: "is_permutation 3 (generateRandomMapping (\<lambda>i. 0) 3)" and pt: "is_permutation 3 (generateRandomMapping (\<lambda>i. i) 3)"
    by (rule generateRandomMapping_permutation, simp)+
  note inst = calculateAdjustmentTranspositions_minimal [OF pa pt]
  have ev: "calculateAdjustmentTranspositions (generateRandomMapping (\<lambda>i. 0) 3) (generateRandomMapping (\<lambda>i. i) 3) 3 = [1, 0]"
    by code_simp
  have reach: "apply_transpositions [1, 0] (generateRandomMapping (\<lambda>i. 0) 3) = generateRandomMapping (\<lambda>i. i) 3"
    using inst ev by simp
  have "fold swap_columns [1, 0, 0, 0] = fold swap_columns [1, 0]"
    by (rule ext) simp
  then have "apply_transpositions [1, 0, 0, 0] (generateRandomMapping (\<lambda>i. 0) 3) = apply_transpositions [1, 0] (generateRandomMapping (\<lambda>i. 0) 3)"
    by (simp only: apply_transpositions_def)
  with reach have again: "apply_transpositions [1, 0, 0, 0] (generateRandomMapping (\<lambda>i. 0) 3) = generateRandomMapping (\<lambda>i. i) 3"
    by simp
  with inst have "length (calculateAdjustmentTranspositions (generateRandomMapping (\<lambda>i. 0) 3) (generateRandomMapping (\<lambda>i. i) 3) 3)
      \<le> length [1, 0, 0, 0 :: nat]"
    by blast
  then show ?thesis using pa pt ev reach again inst by simp
qed

section \<open>Rows without overlap are involutions\<close>

lemma trace_line_disjoint:
  assumes "\<forall>a \<in> set A. \<forall>b \<in> set A. a \<noteq> b \<longrightarrow> rung_columns a \<inter> rung_columns b = {}"
  shows "trace_line A x =
           (if \<exists>l \<in> set A. fromColumn l = x then x + 1
            else if \<exists>l \<in> set A. fromColumn l + 1 = x then x - 1 else x)"
  using assms
proof (induction A)
  case Nil
  then show ?case by simp
next
  case (Cons l A)
  have ih: "trace_line A x =
           (if \<exists>l \<in> set A. fromColumn l = x then x + 1
            else if \<exists>l \<in> set A. fromColumn l + 1 = x then x - 1 else x)"
    using Cons by simp
  show ?case
  proof (cases "fromColumn l = x")
    case True
    then show ?thesis by simp
  next
    case False
    show ?thesis
    proof (cases "fromColumn l + 1 = x")
      case True
      have "fromColumn b \<noteq> x" if "b \<in> set A" for b
      proof
        assume b: "fromColumn b = x"
        then have "b \<noteq> l" using False by auto
        moreover have "x \<in> rung_columns l \<inter> rung_columns b"
          using True b by (simp add: rung_columns_def)
        ultimately show False using Cons.prems that by auto
      qed
      then show ?thesis using True False by auto
    next
      case False
      with \<open>fromColumn l \<noteq> x\<close> show ?thesis using ih by auto
    qed
  qed
qed

lemma lines_at_disjoint:
  assumes "no_overlap ls"
  shows "\<forall>a \<in> set (lines_at ls r). \<forall>b \<in> set (lines_at ls r).
           a \<noteq> b \<longrightarrow> rung_columns a \<inter> rung_columns b = {}"
  using assms by (auto simp: no_overlap_def lines_at_def)

lemma trace_line_involution:
  assumes "\<forall>a \<in> set A. \<forall>b \<in> set A. a \<noteq> b \<longrightarrow> rung_columns a \<inter> rung_columns b = {}"
  shows "trace_line A (trace_line A x) = x"
proof -
  note closed = trace_line_disjoint [OF assms]
  consider (right) l where "l \<in> set A" "fromColumn l = x"
    | (left) l where "l \<in> set A" "fromColumn l + 1 = x" "\<forall>b \<in> set A. fromColumn b \<noteq> x"
    | (stay) "\<forall>b \<in> set A. fromColumn b \<noteq> x" "\<forall>b \<in> set A. fromColumn b + 1 \<noteq> x"
    by blast
  then show ?thesis
  proof cases
    case right
    have step: "trace_line A x = x + 1" using right closed [of x] by auto
    have "fromColumn b \<noteq> x + 1" if "b \<in> set A" for b
    proof
      assume b: "fromColumn b = x + 1"
      then have "b \<noteq> l" using right(2) by auto
      moreover have "x + 1 \<in> rung_columns l \<inter> rung_columns b"
        using right(2) b by (simp add: rung_columns_def)
      ultimately show False using assms that right(1) by auto
    qed
    then show ?thesis unfolding step using closed [of "x + 1"] right by auto
  next
    case left
    have step: "trace_line A x = x - 1" using left closed [of x] by auto
    have "fromColumn l = x - 1" using left(2) by simp
    then show ?thesis unfolding step using closed [of "x - 1"] left(1,2) by auto
  next
    case stay
    then have "trace_line A x = x" using closed [of x] by auto
    then show ?thesis by simp
  qed
qed

lemma trace_line_range:
  assumes "\<forall>l \<in> set A. fromColumn l + 1 < n" and "x < n"
  shows "trace_line A x < n"
  using assms by (induction A) auto

lemma trace_rows_inj:
  assumes "no_overlap ls"
  shows "inj (trace_rows ls rs)"
proof (induction rs)
  case Nil
  show ?case by (simp add: inj_def)
next
  case (Cons r rs)
  have "inj (trace_line (lines_at ls r))"
    by (rule inj_on_inverseI [where g = "trace_line (lines_at ls r)"])
       (simp add: trace_line_involution [OF lines_at_disjoint [OF assms]])
  then have "inj (trace_rows ls rs \<circ> trace_line (lines_at ls r))"
    using Cons by (intro inj_compose)
  moreover have "trace_rows ls (r # rs) = trace_rows ls rs \<circ> trace_line (lines_at ls r)"
    by (rule ext) (simp add: trace_rows_Cons)
  ultimately show ?case by (simp only:)
qed

lemma trace_rows_range:
  assumes "\<forall>l \<in> set ls. fromColumn l + 1 < n" and "x < n"
  shows "trace_rows ls rs x < n"
  using assms(2)
proof (induction rs arbitrary: x)
  case Nil
  then show ?case by simp
next
  case (Cons r rs)
  have "trace_line (lines_at ls r) x < n"
    using assms(1) Cons.prems by (intro trace_line_range) (auto simp: lines_at_def)
  then show ?case using Cons.IH by (simp add: trace_rows_Cons)
qed

lemma calculateMapping_permutation:
  assumes "no_overlap ls" and "\<forall>l \<in> set ls. fromColumn l + 1 < n"
  shows "is_permutation n (calculateMapping n numRows ls)"
proof -
  let ?f = "trace_rows ls [0..<numRows]"
  have inj: "inj_on ?f {0..<n}"
    using trace_rows_inj [OF assms(1)] by (rule inj_on_subset) simp
  moreover have sub: "?f ` {0..<n} \<subseteq> {0..<n}"
    using trace_rows_range [OF assms(2)] by auto
  ultimately have "?f ` {0..<n} = {0..<n}" by (intro endo_inj_surj) simp_all
  with inj have "bij_betw ?f {0..<n} {0..<n}" by (simp add: bij_betw_def)
  moreover have "bij_betw (\<lambda>p. the (calculateMapping n numRows ls p)) {0..<n} {0..<n}
      \<longleftrightarrow> bij_betw ?f {0..<n} {0..<n}"
    by (rule bij_betw_cong) (simp add: calculateMapping_closed)
  moreover have "dom (calculateMapping n numRows ls) = {0..<n}"
    by (auto simp: calculateMapping_closed split: if_splits)
  ultimately show ?thesis by (simp add: is_permutation_def)
qed

lemma trace_rows_sort:
  assumes "no_overlap ls"
  shows "trace_rows (sort_key k ls) rs x = trace_rows ls rs x"
proof -
  have "trace_line (lines_at (sort_key k ls) r) y = trace_line (lines_at ls r) y" for r y
  proof -
    have "set (lines_at (sort_key k ls) r) = set (lines_at ls r)"
      by (simp add: lines_at_def)
    then show ?thesis
      using trace_line_disjoint [OF lines_at_disjoint [OF assms], of r y]
        trace_line_disjoint [OF lines_at_disjoint [OF sort_no_overlap [OF assms]], of k r y]
      by simp
  qed
  then show ?thesis by (simp add: trace_rows_def)
qed

section \<open>The adjustment rungs realise the transpositions\<close>

lemma addAdjustmentLines_trace:
  assumes "\<forall>l \<in> set ls. row l < startRow"
  shows "trace_rows (fst (addAdjustmentLines ls ts startRow numColumns))
           [0..<snd (addAdjustmentLines ls ts startRow numColumns) + 1] x
         = fold swap_columns ts (trace_rows ls [0..<startRow] x)"
proof -
  let ?R = "snd (addAdjustmentLines ls ts startRow numColumns) + 1"
  let ?Q = "\<lambda>adj. (\<forall>l \<in> set adj. row l < ?R) \<longrightarrow>
      (\<forall>y. trace_rows (ls @ adj) [0..<?R] y
             = fold swap_columns (map fromColumn adj) (trace_rows ls [0..<?R] y))"
  obtain adj where adj: "fst (addAdjustmentLines ls ts startRow numColumns) = ls @ adj"
    "map fromColumn adj = ts" "?Q adj"
    "\<forall>l \<in> set adj. startRow \<le> row l \<and> row l < snd (addAdjustmentLines ls ts startRow numColumns)"
    "startRow < snd (addAdjustmentLines ls ts startRow numColumns)"
  proof (rule addAdjustmentLines_invariant [where Q = ?Q
        and ls = ls and ts = ts and startRow = startRow and numColumns = numColumns])
    show "?Q []" by simp
    show "?Q (adj @ [\<lparr>fromColumn = c, row = r\<rparr>])"
      if q: "?Q adj" and top: "\<forall>l \<in> set adj. startRow \<le> row l \<and> row l \<le> r"
        and low: "startRow \<le> r" and free: "touched adj r \<inter> {c, c + 1} = {}" for adj c r
    proof (intro impI allI)
      fix y assume rows: "\<forall>l \<in> set (adj @ [\<lparr>fromColumn = c, row = r\<rparr>]). row l < ?R"
      then have r: "r < ?R" and "\<forall>l \<in> set adj. row l < ?R" by simp_all
      with q have ih: "trace_rows (ls @ adj) [0..<?R] y
             = fold swap_columns (map fromColumn adj) (trace_rows ls [0..<?R] y)" by blast
      have "touched ls r = {}" using assms low by (fastforce simp: touched_def)
      then have free': "touched (ls @ adj) r \<inter> {c, c + 1} = {}"
        using free by (simp add: touched_append)
      have top': "\<forall>l \<in> set (ls @ adj). row l \<le> r"
        using top assms low by fastforce
      from trace_rows_top_rung [OF top' r free', of y] ih
      show "trace_rows (ls @ adj @ [\<lparr>fromColumn = c, row = r\<rparr>]) [0..<?R] y
          = fold swap_columns (map fromColumn (adj @ [\<lparr>fromColumn = c, row = r\<rparr>]))
              (trace_rows ls [0..<?R] y)"
        by simp
    qed
  qed blast
  have "\<forall>l \<in> set adj. row l < ?R" using adj(4) by fastforce
  with adj(3) have "trace_rows (ls @ adj) [0..<?R] x
      = fold swap_columns (map fromColumn adj) (trace_rows ls [0..<?R] x)" by blast
  moreover have "trace_rows ls [0..<?R] x = trace_rows ls [0..<startRow] x"
  proof -
    have "[0..<?R] = [0..<startRow] @ [startRow..<?R]"
      using adj(5) upt_add_eq_append [of 0 startRow "?R - startRow"] by simp
    moreover have "trace_rows ls [startRow..<?R] y = y" for y
      using assms by (intro trace_rows_empty) (auto simp: lines_at_def filter_empty_conv)
    ultimately show ?thesis by (simp add: trace_rows_append)
  qed
  ultimately show ?thesis using adj(1,2) by simp
qed

section \<open>The generated ladder traces to its mapping\<close>

lemma generate_consistent:
  assumes "\<forall>i. 0 < i \<and> i < length ps \<longrightarrow> rnd i \<le> i"
  shows "calculateMapping (verticalLines (generate coinLines rnd coinFill ps rs))
           (rows (generate coinLines rnd coinFill ps rs))
           (horizontalLines (generate coinLines rnd coinFill ps rs))
         = mapping (generate coinLines rnd coinFill ps rs)"
proof -
  define n where "n = length ps"
  define baseRows where "baseRows = max MIN_ROWS (min MAX_ROWS (n * ROWS_PER_PARTICIPANT))"
  define natural where "natural = generateRandomLines coinLines n baseRows"
  define actual where "actual = calculateMapping n baseRows natural"
  define target where "target = generateRandomMapping rnd n"
  define adjustments where "adjustments = calculateAdjustmentTranspositions actual target n"
  obtain finalLines numRows where
    adj: "addAdjustmentLines natural adjustments baseRows n = (finalLines, numRows)"
    by (cases "addAdjustmentLines natural adjustments baseRows n") auto
  define filled where "filled = fillWithDecorativePairs coinFill finalLines (numRows + 1) n"
  have gen: "generate coinLines rnd coinFill ps rs
      = \<lparr>participants = ps, results = rs, verticalLines = n, rows = numRows + 1,
         horizontalLines = sort_key (\<lambda>l. (row l, fromColumn l)) filled, mapping = target\<rparr>"
    using adj
    by (simp add: generate_def Let_def n_def [symmetric] baseRows_def [symmetric]
        natural_def [symmetric] actual_def [symmetric] target_def [symmetric]
        adjustments_def [symmetric] filled_def)
  have nat_ok: "no_overlap natural" "\<forall>l \<in> set natural. fromColumn l + 1 < n"
    unfolding natural_def using generateRandomLines_no_overlap by blast+
  have nat_rows: "\<forall>l \<in> set natural. row l < baseRows"
    unfolding natural_def using generateRandomLines_rows by blast
  have pa: "is_permutation n actual"
    unfolding actual_def by (rule calculateMapping_permutation [OF nat_ok])
  have pt: "is_permutation n target"
    unfolding target_def using assms by (intro generateRandomMapping_permutation) (simp add: n_def)
  have final_ok: "no_overlap finalLines"
    using addAdjustmentLines_no_overlap [OF nat_ok(1) nat_rows, of adjustments n] adj by simp
  then have filled_ok: "no_overlap filled"
    unfolding filled_def by (rule fill_no_overlap)
  have trace: "trace_rows (sort_key (\<lambda>l. (row l, fromColumn l)) filled) [0..<numRows + 1] c
      = the (target c)" if "c < n" for c
  proof -
    have "trace_rows (sort_key (\<lambda>l. (row l, fromColumn l)) filled) [0..<numRows + 1] c
        = trace_rows filled [0..<numRows + 1] c"
      by (rule trace_rows_sort [OF filled_ok])
    also have "\<dots> = trace_rows finalLines [0..<numRows + 1] c"
      unfolding filled_def by (rule fill_preserves_trace)
    also have "\<dots> = fold swap_columns adjustments (trace_rows natural [0..<baseRows] c)"
      using addAdjustmentLines_trace [OF nat_rows, of adjustments n c] adj by simp
    also have "trace_rows natural [0..<baseRows] c = the (actual c)"
      using that by (simp add: actual_def calculateMapping_closed)
    also have "fold swap_columns adjustments (the (actual c)) = the (target c)"
      using adjustment_spec [OF pa pt] that unfolding adjustments_def by blast
    finally show ?thesis .
  qed
  have "calculateMapping n (numRows + 1) (sort_key (\<lambda>l. (row l, fromColumn l)) filled) = target"
  proof
    fix c
    show "calculateMapping n (numRows + 1) (sort_key (\<lambda>l. (row l, fromColumn l)) filled) c = target c"
    proof (cases "c < n")
      case True
      then obtain k where "target c = Some k" using permutation_lookup(1) [OF pt] by blast
      then show ?thesis using trace [OF True] True by (simp add: calculateMapping_closed)
    next
      case False
      then show ?thesis
        using permutation_lookup(2) [OF pt] by (simp add: calculateMapping_closed)
    qed
  qed
  then show ?thesis by (simp add: gen)
qed

text \<open>
  C1. Whatever the random tests give, as long as every draw of the shuffle lies in \<open>0..i\<close>
  (which \<open>Math.floor(Math.random() * (i + 1))\<close> ensures), and so for every valid input, the
  structure returned by \<open>generate\<close> is path-trace consistent: \<open>calculateMapping\<close> on the
  returned column count, row count and rungs gives back the stored mapping exactly, and
  for every start column \<open>c\<close> among the \<open>N\<close> columns the trace of \<open>c\<close> through the rows
  \<open>0..rows-1\<close> ends at \<open>mapping[c]\<close>.
\<close>

theorem generate_path_trace_consistent:
  assumes "\<forall>i. 0 < i \<and> i < length ps \<longrightarrow> rnd i \<le> i"
  shows "calculateMapping (verticalLines (generate coinLines rnd coinFill ps rs))
           (rows (generate coinLines rnd coinFill ps rs))
           (horizontalLines (generate coinLines rnd coinFill ps rs))
         = mapping (generate coinLines rnd coinFill ps rs)
       \<and> verticalLines (generate coinLines rnd coinFill ps rs) = length ps
       \<and> (\<forall>c < length ps.
            mapping (generate coinLines rnd coinFill ps rs) c
              = Some (trace_col
                  (group_lines (rows (generate coinLines rnd coinFill ps rs))
                     (horizontalLines (generate coinLines rnd coinFill ps rs)))
                  (rows (generate coinLines rnd coinFill ps rs)) c))"
proof -
  let ?g = "generate coinLines rnd coinFill ps rs"
  have n: "verticalLines ?g = length ps"
    by (simp add: generate_def Let_def split: prod.splits)
  have eq: "calculateMapping (verticalLines ?g) (rows ?g) (horizontalLines ?g) = mapping ?g"
    by (rule generate_consistent [OF assms])
  have "mapping ?g c = Some (trace_col (group_lines (rows ?g) (horizontalLines ?g)) (rows ?g) c)"
    if "c < length ps" for c
    using that n unfolding eq [symmetric] by (simp add: calculateMapping_closed trace_col_closed)
  with n eq show ?thesis by blast
qed

theorem generate_path_trace_consistent_witness:
  "calculateMapping
     (verticalLines (generate (\<lambda>r c. r = 1) (\<lambda>i. 0) (\<lambda>r c. r = 3)
        [''A'', ''B'', ''C'', ''D''] [''W'', ''X'', ''Y'', ''Z'']))
     (rows (generate (\<lambda>r c. r = 1) (\<lambda>i. 0) (\<lambda>r c. r = 3)
        [''A'', ''B'', ''C'', ''D''] [''W'', ''X'', ''Y'', ''Z'']))
     (horizontalLines (generate (\<lambda>r c. r = 1) (\<lambda>i. 0) (\<lambda>r c. r = 3)
        [''A'', ''B'', ''C'', ''D''] [''W'', ''X'', ''Y'', ''Z'']))
   = mapping (generate (\<lambda>r c. r = 1) (\<lambda>i. 0) (\<lambda>r c. r = 3)
        [''A'', ''B'', ''C'', ''D''] [''W'', ''X'', ''Y'', ''Z''])
   \<and> map (mapping (generate (\<lambda>r c. r = 1) (\<lambda>i. 0) (\<lambda>r c. r = 3)
        [''A'', ''B'', ''C'', ''D''] [''W'', ''X'', ''Y'', ''Z''])) [0, 1, 2, 3, 4]
       = [Some 3, Some 0, Some 1, Some 2, None]
   \<and> rows (generate (\<lambda>r c. r = 1) (\<lambda>i. 0) (\<lambda>r c. r = 3)
        [''A'', ''B'', ''C'', ''D''] [''W'', ''X'', ''Y'', ''Z'']) = 16"
proof -
  have h: "\<forall>i. 0 < i \<and> i < length [''A'', ''B'', ''C'', ''D''] \<longrightarrow> (\<lambda>i. 0 :: nat) i \<le> i"
    by simp
  have ev: "map (mapping (generate (\<lambda>r c. r = 1) (\<lambda>i. 0) (\<lambda>r c. r = 3)
        [''A'', ''B'', ''C'', ''D''] [''W'', ''X'', ''Y'', ''Z''])) [0, 1, 2, 3, 4]
       = [Some 3, Some 0, Some 1, Some 2, None]"
    "rows (generate (\<lambda>r c. r = 1) (\<lambda>i. 0) (\<lambda>r c. r = 3)
        [''A'', ''B'', ''C'', ''D''] [''W'', ''X'', ''Y'', ''Z'']) = 16"
    by code_simp+
  from generate_path_trace_consistent [OF h, of "\<lambda>r c. r = 1" "\<lambda>r c. r = 3" "[''W'', ''X'', ''Y'', ''Z'']"]
    ev show ?thesis by blast
qed

section \<open>Validation\<close>

lemma validateInputs_None:
  "validateInputs ps rs = None \<longleftrightarrow>
     2 \<le> length ps \<and> 2 \<le> length rs \<and> length ps = length rs \<and> length ps \<le> 100 \<and> distinct ps"
  by (auto simp: validateInputs_def card_distinct distinct_card)

lemma handleStart_calls:
  "snd (handleStart coinLines rnd coinFill ptext rtext st) =
     (case validateInputs (parseTextareaLines ptext) (parseTextareaLines rtext) of
        Some e \<Rightarrow> [ShowError e]
      | None \<Rightarrow>
          [Generate (parseTextareaLines ptext) (parseTextareaLines rtext),
           Render (generate coinLines rnd coinFill (parseTextareaLines ptext) (parseTextareaLines rtext)),
           DisplayResultSummary (generate coinLines rnd coinFill (parseTextareaLines ptext) (parseTextareaLines rtext)),
           ShowResultSection])"
  by (simp add: handleStart_def Let_def split: option.splits)

text \<open>
  C7. \<open>validateInputs\<close> returns an error message exactly when there are fewer than two
  participants, fewer than two results, different counts, more than 100 participants or
  a duplicate participant name. The start handler calls \<open>generate\<close> exactly when
  \<open>validateInputs\<close> returns \<open>null\<close> on the parsed lines, and then on these lines; otherwise
  its only call shows the error and the stored ladder is unchanged. The participants
  \<open>["A"]\<close> are rejected whatever the results are.
\<close>

theorem validateInputs_rejects_invalid:
  "(validateInputs ps rs \<noteq> None \<longleftrightarrow>
      length ps < 2 \<or> length rs < 2 \<or> length ps \<noteq> length rs \<or> 100 < length ps \<or> \<not> distinct ps)
   \<and> ((\<exists>ps' rs'. Generate ps' rs' \<in> set (snd (handleStart coinLines rnd coinFill ptext rtext st)))
        \<longleftrightarrow> validateInputs (parseTextareaLines ptext) (parseTextareaLines rtext) = None)
   \<and> (\<forall>ps' rs'. Generate ps' rs' \<in> set (snd (handleStart coinLines rnd coinFill ptext rtext st))
        \<longrightarrow> ps' = parseTextareaLines ptext \<and> rs' = parseTextareaLines rtext)
   \<and> (\<forall>e. validateInputs (parseTextareaLines ptext) (parseTextareaLines rtext) = Some e
        \<longrightarrow> handleStart coinLines rnd coinFill ptext rtext st = (st, [ShowError e]))
   \<and> validateInputs [''A''] rs \<noteq> None
   \<and> (parseTextareaLines ptext = [''A'']
        \<longrightarrow> handleStart coinLines rnd coinFill ptext rtext st = (st, [ShowError TooFewParticipants]))"
proof -
  have "validateInputs ps rs \<noteq> None \<longleftrightarrow>
      length ps < 2 \<or> length rs < 2 \<or> length ps \<noteq> length rs \<or> 100 < length ps \<or> \<not> distinct ps"
    using validateInputs_None [of ps rs] by auto
  moreover have "(\<exists>ps' rs'. Generate ps' rs' \<in> set (snd (handleStart coinLines rnd coinFill ptext rtext st)))
        \<longleftrightarrow> validateInputs (parseTextareaLines ptext) (parseTextareaLines rtext) = None"
    by (auto simp: handleStart_calls split: option.splits)
  moreover have "\<forall>ps' rs'. Generate ps' rs' \<in> set (snd (handleStart coinLines rnd coinFill ptext rtext st))
        \<longrightarrow> ps' = parseTextareaLines ptext \<and> rs' = parseTextareaLines rtext"
    by (auto simp: handleStart_calls split: option.splits)
  moreover have "\<forall>e. validateInputs (parseTextareaLines ptext) (parseTextareaLines rtext) = Some e
        \<longrightarrow> handleStart coinLines rnd coinFill ptext rtext st = (st, [ShowError e])"
    by (simp add: handleStart_def)
  moreover have "validateInputs [''A''] rs \<noteq> None"
    by (simp add: validateInputs_def)
  moreover have "parseTextareaLines ptext = [''A'']
        \<longrightarrow> handleStart coinLines rnd coinFill ptext rtext st = (st, [ShowError TooFewParticipants])"
    by (simp add: handleStart_def validateInputs_def)
  ultimately show ?thesis by blast
qed

theorem validateInputs_rejects_invalid_witness:
  "validateInputs [''A''] [''X'', ''Y''] = Some TooFewParticipants
   \<and> parseTextareaLines ''A'' = [''A'']
   \<and> handleStart (\<lambda>r c. True) (\<lambda>i. 0) (\<lambda>r c. True) ''A'' (''X'' @ [CHR 0x0A] @ ''Y'') None
       = (None, [ShowError TooFewParticipants])
   \<and> validateInputs [''A'', ''B''] [''X'', ''Y''] = None
   \<and> Generate [''A'', ''B''] [''X'', ''Y'']
       \<in> set (snd (handleStart (\<lambda>r c. True) (\<lambda>i. 0) (\<lambda>r c. True)
                 (''A'' @ [CHR 0x0A] @ ''B'') (''X'' @ [CHR 0x0A] @ ''Y'') None))"
proof -
  note inst1 = validateInputs_rejects_invalid [of "[''A'']" "[''X'', ''Y'']"
      "\<lambda>r c. True" "\<lambda>i. 0" "\<lambda>r c. True" "''A''" "''X'' @ [CHR 0x0A] @ ''Y''" None]
  note inst2 = validateInputs_rejects_invalid [of "[''A'', ''B'']" "[''X'', ''Y'']"
      "\<lambda>r c. True" "\<lambda>i. 0" "\<lambda>r c. True" "''A'' @ [CHR 0x0A] @ ''B''" "''X'' @ [CHR 0x0A] @ ''Y''" None]
  have p1: "parseTextareaLines ''A'' = [''A'']" by code_simp
  have p2: "parseTextareaLines (''A'' @ [CHR 0x0A] @ ''B'') = [''A'', ''B'']"
    "parseTextareaLines (''X'' @ [CHR 0x0A] @ ''Y'') = [''X'', ''Y'']" by code_simp+
  have v1: "validateInputs [''A''] [''X'', ''Y''] = Some TooFewParticipants" by code_simp
  have valid: "\<not> (length [''A'', ''B''] < 2 \<or> length [''X'', ''Y''] < 2
      \<or> length [''A'', ''B''] \<noteq> length [''X'', ''Y''] \<or> 100 < length [''A'', ''B'']
      \<or> \<not> distinct [''A'', ''B''])" by simp
  have v2: "validateInputs [''A'', ''B''] [''X'', ''Y''] = None"
    using inst2 [THEN conjunct1] valid by simp
  have h1: "handleStart (\<lambda>r c. True) (\<lambda>i. 0) (\<lambda>r c. True) ''A'' (''X'' @ [CHR 0x0A] @ ''Y'') None
       = (None, [ShowError TooFewParticipants])"
    using inst1 [THEN conjunct2, THEN conjunct2, THEN conjunct2, THEN conjunct2, THEN conjunct2] p1
    by (rule mp)
  have "\<exists>ps' rs'. Generate ps' rs'
       \<in> set (snd (handleStart (\<lambda>r c. True) (\<lambda>i. 0) (\<lambda>r c. True)
                 (''A'' @ [CHR 0x0A] @ ''B'') (''X'' @ [CHR 0x0A] @ ''Y'') None))"
    using inst2 [THEN conjunct2, THEN conjunct1] v2 unfolding p2 by (rule iffD2)
  then obtain ps' rs' where g: "Generate ps' rs'
       \<in> set (snd (handleStart (\<lambda>r c. True) (\<lambda>i. 0) (\<lambda>r c. True)
                 (''A'' @ [CHR 0x0A] @ ''B'') (''X'' @ [CHR 0x0A] @ ''Y'') None))"
    by (elim exE)
  have "ps' = [''A'', ''B''] \<and> rs' = [''X'', ''Y'']"
    using inst2 [THEN conjunct2, THEN conjunct2, THEN conjunct1, THEN spec, THEN spec, THEN mp, OF g]
    unfolding p2 .
  with g have "Generate [''A'', ''B''] [''X'', ''Y'']
       \<in> set (snd (handleStart (\<lambda>r c. True) (\<lambda>i. 0) (\<lambda>r c. True)
                 (''A'' @ [CHR 0x0A] @ ''B'') (''X'' @ [CHR 0x0A] @ ''Y'') None))"
    by simp
  with v1 p1 h1 v2 show ?thesis by (intro conjI)
qed

end
